theory Spec2Isabelle
  imports Main "HOL-Library.AList" "HOL-Library.Multiset"
begin

section \<open>Stream reconstructor (internal/client/types.go)\<close>

subsection \<open>Wire types\<close>

text \<open>
  The Go structs of the streaming wire format, one record each. Field names carry a short
  prefix of their struct because record fields share one name space. Go's \<open>int\<close> fields
  are modelled as \<open>int\<close>: no arithmetic is done on them apart from the loop counter of
  the final walk, which stays below the size of a map.
\<close>

record Usage =
  PromptTokens :: int
  CompletionTokens :: int
  TotalTokens :: int

record ToolCallFunction =
  tcf_Name :: string
  tcf_Arguments :: string

record ToolCall =
  tc_ID :: string
  tc_Type :: string
  tc_Function :: ToolCallFunction

record ToolCallFunctionDelta =
  tcfd_Name :: string
  tcfd_Arguments :: string

record ToolCallDelta =
  tcd_Index :: int
  tcd_ID :: string
  tcd_Type :: string
  tcd_Function :: ToolCallFunctionDelta

record ChunkDelta =
  cd_Role :: string
  cd_Content :: string
  cd_ReasoningContent :: string
  cd_ToolCalls :: "ToolCallDelta list"

record ChunkChoice =
  cc_Index :: int
  cc_Delta :: ChunkDelta
  cc_FinishReason :: "string option"

record ChatCompletionChunk =
  ccc_ID :: string
  ccc_Object :: string
  ccc_Created :: int
  ccc_Model :: string
  ccc_Choices :: "ChunkChoice list"
  ccc_Usage :: "Usage option"

record StreamResult =
  sr_Content :: string
  sr_ReasoningContent :: string
  sr_ToolCalls :: "ToolCall list"
  sr_Usage :: "Usage option"
  sr_Chunks :: "ChatCompletionChunk list"

subsection \<open>toolCallBuilder\<close>

record toolCallBuilder =
  b_id :: string
  b_typ :: string
  b_name :: string
  b_arguments :: string

text \<open>\<open>&toolCallBuilder{}\<close>: every field at its zero value.\<close>

definition new_builder :: toolCallBuilder where
  "new_builder = \<lparr>b_id = [], b_typ = [], b_name = [], b_arguments = []\<rparr>"

definition Accumulate :: "toolCallBuilder \<Rightarrow> ToolCallDelta \<Rightarrow> toolCallBuilder" where
  "Accumulate b delta =
     (let b1 = (if tcd_ID delta \<noteq> [] then b\<lparr>b_id := tcd_ID delta\<rparr> else b);
          b2 = (if tcd_Type delta \<noteq> [] then b1\<lparr>b_typ := tcd_Type delta\<rparr> else b1);
          b3 = (if tcfd_Name (tcd_Function delta) \<noteq> []
                then b2\<lparr>b_name := tcfd_Name (tcd_Function delta)\<rparr> else b2)
      in b3\<lparr>b_arguments := b_arguments b3 @ tcfd_Arguments (tcd_Function delta)\<rparr>)"

definition Build :: "toolCallBuilder \<Rightarrow> ToolCall" where
  "Build b = \<lparr>tc_ID = b_id b, tc_Type = b_typ b,
              tc_Function = \<lparr>tcf_Name = b_name b, tcf_Arguments = b_arguments b\<rparr>\<rparr>"

subsection \<open>parseSSEStream\<close>

text \<open>
  \<open>toolCallBuilders\<close> is a Go map from position to builder. It is modelled as an association
  list with one entry per key: \<open>map_of\<close> is the lookup, \<open>AList.update\<close> the store (it
  replaces the entry of a present key and adds one for a new key) and \<open>length\<close> is
  \<open>len\<close>. The order of the entries is never observed.
\<close>

type_synonym builders = "(int \<times> toolCallBuilder) list"

text \<open>The loop state: the result under construction, the builders, the raw buffer.\<close>

record acc =
  result :: StreamResult
  toolCallBuilders :: builders
  rawChunks :: string

definition new_result :: StreamResult where
  "new_result = \<lparr>sr_Content = [], sr_ReasoningContent = [], sr_ToolCalls = [],
                  sr_Usage = None, sr_Chunks = []\<rparr>"

definition new_acc :: acc where
  "new_acc = \<lparr>result = new_result, toolCallBuilders = [], rawChunks = []\<rparr>"

definition HasPrefix :: "string \<Rightarrow> string \<Rightarrow> bool" where
  "HasPrefix s p = (take (length p) s = p)"

definition TrimPrefix :: "string \<Rightarrow> string \<Rightarrow> string" where
  "TrimPrefix s p = (if HasPrefix s p then drop (length p) s else s)"

text \<open>The body of the inner loop over \<open>delta.ToolCalls\<close>, for one fragment.\<close>

definition route :: "builders \<Rightarrow> ToolCallDelta \<Rightarrow> builders" where
  "route bs tc =
     (case map_of bs (tcd_Index tc) of
        Some builder \<Rightarrow> AList.update (tcd_Index tc) (Accumulate builder tc) bs
      | None \<Rightarrow> AList.update (tcd_Index tc) (Accumulate new_builder tc) bs)"

text \<open>The body of the loop over \<open>chunk.Choices\<close>, for one choice.\<close>

definition process_choice :: "acc \<Rightarrow> ChunkChoice \<Rightarrow> acc" where
  "process_choice a choice =
     (let delta = cc_Delta choice;
          r = result a;
          r1 = r\<lparr>sr_Content := sr_Content r @ cd_Content delta\<rparr>;
          r2 = r1\<lparr>sr_ReasoningContent := sr_ReasoningContent r1 @ cd_ReasoningContent delta\<rparr>
      in a\<lparr>result := r2,
            toolCallBuilders := foldl route (toolCallBuilders a) (cd_ToolCalls delta)\<rparr>)"

text \<open>What one successfully decoded chunk does to the state.\<close>

definition process_chunk :: "acc \<Rightarrow> ChatCompletionChunk \<Rightarrow> acc" where
  "process_chunk a chunk =
     (let r = result a;
          r1 = r\<lparr>sr_Chunks := sr_Chunks r @ [chunk]\<rparr>;
          r2 = (case ccc_Usage chunk of Some u \<Rightarrow> r1\<lparr>sr_Usage := Some u\<rparr> | None \<Rightarrow> r1)
      in foldl process_choice (a\<lparr>result := r2\<rparr>) (ccc_Choices chunk))"

text \<open>
  The scanning loop. The reader is given as the list of lines that \<open>scanner.Scan\<close> yields.
  \<open>json.Unmarshal\<close> into a \<open>ChatCompletionChunk\<close> belongs to the standard library and is a
  parameter \<open>um\<close>: \<open>Inl\<close> its error text, \<open>Inr\<close> the decoded chunk. The loop ends with
  \<open>Inr\<close> the state (the sentinel was read or the lines ran out) or with \<open>Inl\<close> the raw
  buffer and the decoding error (the early return).
\<close>

fun scan_loop :: "(string \<Rightarrow> string + ChatCompletionChunk) \<Rightarrow> string list \<Rightarrow> acc
    \<Rightarrow> (string \<times> string) + acc" where
  "scan_loop um [] a = Inr a"
| "scan_loop um (line # rest) a =
     (let a1 = a\<lparr>rawChunks := rawChunks a @ line @ [CHR 0x0A]\<rparr> in
      if \<not> HasPrefix line ''data: '' then scan_loop um rest a1
      else
        let data = TrimPrefix line ''data: '' in
        if data = ''[DONE]'' then Inr a1
        else (case um data of
                Inl err \<Rightarrow> Inl (rawChunks a1, err)
              | Inr chunk \<Rightarrow> scan_loop um rest (process_chunk a1 chunk)))"

text \<open>The final walk \<open>for i := 0; i < len(toolCallBuilders); i++\<close>.\<close>

function build_loop :: "int \<Rightarrow> builders \<Rightarrow> ToolCall list \<Rightarrow> ToolCall list" where
  "build_loop i bs out =
     (if i < int (length bs)
      then build_loop (i + 1) bs
             (case map_of bs i of Some builder \<Rightarrow> out @ [Build builder] | None \<Rightarrow> out)
      else out)"
  by pat_completeness auto
termination
  by (relation "measure (\<lambda>(i, bs, out). nat (int (length bs) - i))") auto

declare build_loop.simps [simp del]

datatype stream_error = UnmarshalChunk string | ScanStream string

text \<open>
  \<open>parseSSEStream\<close>. Its input is the lines the scanner yields and \<open>scan_err\<close>, the value of
  \<open>scanner.Err()\<close> once the loop has ended. The result is Go's triple: the
  \<open>*StreamResult\<close> (\<open>None\<close> for nil), the raw bytes and the error (\<open>None\<close> for nil).
\<close>

definition parseSSEStream :: "(string \<Rightarrow> string + ChatCompletionChunk) \<Rightarrow> string list
    \<Rightarrow> string option \<Rightarrow> StreamResult option \<times> string \<times> stream_error option" where
  "parseSSEStream um lines scan_err =
     (case scan_loop um lines new_acc of
        Inl (raw, err) \<Rightarrow> (None, raw, Some (UnmarshalChunk err))
      | Inr a \<Rightarrow>
          (case scan_err of
             Some err \<Rightarrow> (None, rawChunks a, Some (ScanStream err))
           | None \<Rightarrow>
               (Some ((result a)\<lparr>sr_ToolCalls :=
                        build_loop 0 (toolCallBuilders a) (sr_ToolCalls (result a))\<rparr>),
                rawChunks a, None)))"

section \<open>Logger (internal/log/log.go)\<close>

text \<open>
  The logger of \<open>log.go\<close>: a directory and the log file under construction, shared by all
  evals, by the runner and by the client. What it takes from the standard library and the
  operating system are fields of the model: \<open>lg_now\<close> is the formatted time that
  \<open>time.Now()\<close> yields, \<open>lg_join\<close> is \<open>filepath.Join\<close> on two elements, \<open>lg_indent\<close> is
  \<open>json.Indent\<close> (\<open>None\<close> when it fails) and \<open>lg_disk_ok\<close> says whether
  \<open>os.WriteFile\<close> succeeds for a file name. \<open>lg_written\<close> collects the files written.
  The mutex is not modelled: every method runs as one step.
\<close>

record logFile =
  lf_name :: string
  lf_buf :: string

record Logger =
  lg_dir :: string
  lg_current :: "logFile option"
  lg_now :: string
  lg_join :: "string \<Rightarrow> string \<Rightarrow> string"
  lg_indent :: "string \<Rightarrow> string option"
  lg_disk_ok :: "string \<Rightarrow> bool"
  lg_written :: "(string \<times> string) list"

text \<open>The verb \<open>%d\<close> of \<open>fmt\<close>: an integer in decimal.\<close>

fun digits :: "nat \<Rightarrow> string" where
  "digits n =
     (if n < 10 then [char_of (48 + n)] else digits (n div 10) @ [char_of (48 + n mod 10)])"

declare digits.simps [simp del]

definition decimal :: "int \<Rightarrow> string" where
  "decimal i = (if i < 0 then CHR ''-'' # digits (nat (- i)) else digits (nat i))"

definition formatJSON :: "Logger \<Rightarrow> string \<Rightarrow> string" where
  "formatJSON l data = (case lg_indent l data of None \<Rightarrow> data | Some buf \<Rightarrow> buf)"

text \<open>Appending to the buffer of the current log file, for the methods that only do that.\<close>

definition write_current :: "Logger \<Rightarrow> logFile \<Rightarrow> string \<Rightarrow> Logger" where
  "write_current l cur text = l\<lparr>lg_current := Some (cur\<lparr>lf_buf := lf_buf cur @ text\<rparr>)\<rparr>"

definition StartEval :: "Logger \<Rightarrow> string \<Rightarrow> Logger" where
  "StartEval l name =
     l\<lparr>lg_current := Some \<lparr>lf_name = name,
          lf_buf = ''=== Eval: '' @ name @ '' ==='' @ [CHR 0x0A] @
                   ''Started: '' @ lg_now l @ [CHR 0x0A, CHR 0x0A]\<rparr>\<rparr>"

definition LogRequest :: "Logger \<Rightarrow> string \<Rightarrow> string \<Rightarrow> string \<Rightarrow> Logger" where
  "LogRequest l method url body =
     (case lg_current l of
        None \<Rightarrow> l
      | Some cur \<Rightarrow>
          write_current l cur
            (''>>> REQUEST'' @ [CHR 0x0A] @ method @ '' '' @ url @ [CHR 0x0A] @ [CHR 0x0A] @
             formatJSON l body @ [CHR 0x0A, CHR 0x0A]))"

definition LogResponse :: "Logger \<Rightarrow> int \<Rightarrow> string \<Rightarrow> Logger" where
  "LogResponse l status body =
     (case lg_current l of
        None \<Rightarrow> l
      | Some cur \<Rightarrow>
          write_current l cur
            (''<<< RESPONSE'' @ [CHR 0x0A] @ ''Status: '' @ decimal status @ [CHR 0x0A] @
             [CHR 0x0A] @ formatJSON l body @ [CHR 0x0A, CHR 0x0A]))"

definition LogStreamResponse :: "Logger \<Rightarrow> int \<Rightarrow> string \<Rightarrow> Logger" where
  "LogStreamResponse l status raw =
     (case lg_current l of
        None \<Rightarrow> l
      | Some cur \<Rightarrow>
          write_current l cur
            (''<<< STREAM RESPONSE'' @ [CHR 0x0A] @ ''Status: '' @ decimal status @ [CHR 0x0A] @
             [CHR 0x0A] @ raw @ [CHR 0x0A]))"

definition LogResult :: "Logger \<Rightarrow> bool \<Rightarrow> string \<Rightarrow> Logger" where
  "LogResult l passed message =
     (case lg_current l of
        None \<Rightarrow> l
      | Some cur \<Rightarrow>
          (let status = (if \<not> passed then ''FAILED'' else ''PASSED'');
               buf1 = lf_buf cur @ ''=== Result: '' @ status @ '' ==='' @ [CHR 0x0A];
               buf2 = (if message \<noteq> [] then buf1 @ message @ [CHR 0x0A] else buf1)
           in l\<lparr>lg_current := Some (cur\<lparr>lf_buf := buf2\<rparr>)\<rparr>))"

text \<open>\<open>EndEval\<close> returns an error when the write fails; the runner drops it.\<close>

definition EndEval :: "Logger \<Rightarrow> Logger" where
  "EndEval l =
     (case lg_current l of
        None \<Rightarrow> l
      | Some cur \<Rightarrow>
          (let filename = lg_join l (lg_dir l) (lf_name cur @ ''.log'') in
           if \<not> lg_disk_ok l filename then l
           else l\<lparr>lg_written := lg_written l @ [(filename, lf_buf cur)],
                  lg_current := None\<rparr>))"

section \<open>Client (internal/client)\<close>

text \<open>
  The client through which the body of an eval talks to the server. It holds the same
  \<open>*Logger\<close> as the runner and logs every exchange when that pointer is not nil. The state
  that its methods change is a \<open>world\<close>: the shared logger (\<open>None\<close> for a nil pointer) and
  the number of requests sent so far.

  The server and the standard library are an environment \<open>Env\<close>: \<open>json.Marshal\<close> of a
  request, \<open>http.NewRequestWithContext\<close> (its error, if any), \<open>httpClient.Do\<close> (the
  outcome of the n-th request sent), and \<open>json.Unmarshal\<close> into each of the three reply
  types. A response body is given by what the two ways of reading it yield: \<open>io.ReadAll\<close>
  (the bytes and the error, if any) and the line scanner of \<open>parseSSEStream\<close> (the lines and
  the error, if any).
\<close>

record StreamOptions =
  so_IncludeUsage :: bool

text \<open>
  Of a \<open>ChatCompletionRequest\<close> the client writes three fields; everything else (messages,
  tools, response format, ...) is \<open>req_payload\<close>.
\<close>

record ChatCompletionRequest =
  req_Model :: string
  req_Stream :: bool
  req_StreamOptions :: "StreamOptions option"
  req_payload :: string

record ResponseMessage =
  rm_Role :: string
  rm_Content :: string
  rm_ReasoningContent :: string
  rm_ToolCalls :: "ToolCall list"

record Choice =
  ch_Index :: int
  ch_Message :: ResponseMessage
  ch_FinishReason :: string

record ChatCompletionResponse =
  cr_ID :: string
  cr_Object :: string
  cr_Created :: int
  cr_Model :: string
  cr_Choices :: "Choice list"
  cr_Usage :: "Usage option"

record http_request =
  hq_method :: string
  hq_url :: string
  hq_header :: "(string \<times> string) list"
  hq_body :: string

record http_response =
  hr_StatusCode :: int
  hr_read_all :: "string \<times> string option"
  hr_lines :: "string list"
  hr_scan_err :: "string option"

record Env =
  env_marshal_chat :: "ChatCompletionRequest \<Rightarrow> string + string"
  env_marshal_template :: "string \<Rightarrow> string + string"
  env_new_request :: "string \<Rightarrow> string option"
  env_do :: "nat \<Rightarrow> http_request \<Rightarrow> string + http_response"
  env_unmarshal_response :: "string \<Rightarrow> string + ChatCompletionResponse"
  env_unmarshal_chunk :: "string \<Rightarrow> string + ChatCompletionChunk"
  env_unmarshal_template :: "string \<Rightarrow> string + string"

record Client =
  c_baseURL :: string
  c_apiKey :: string
  c_model :: string

record world =
  w_logger :: "Logger option"
  w_served :: nat

definition StatusOK :: int where "StatusOK = 200"

definition setHeaders :: "Client \<Rightarrow> (string \<times> string) list" where
  "setHeaders c =
     (''Content-Type'', ''application/json'') #
     (if c_apiKey c \<noteq> [] then [(''Authorization'', ''Bearer '' @ c_apiKey c)] else [])"

text \<open>A logging statement under \<open>if c.logger != nil\<close>.\<close>

definition with_logger :: "world \<Rightarrow> (Logger \<Rightarrow> Logger) \<Rightarrow> world" where
  "with_logger w f =
     (case w_logger w of None \<Rightarrow> w | Some l \<Rightarrow> w\<lparr>w_logger := Some (f l)\<rparr>)"

text \<open>\<open>err.Error()\<close> of the two errors of \<open>parseSSEStream\<close>.\<close>

fun stream_error_text :: "stream_error \<Rightarrow> string" where
  "stream_error_text (UnmarshalChunk err) = ''unmarshal chunk: '' @ err"
| "stream_error_text (ScanStream err) = ''scan stream: '' @ err"

text \<open>
  \<open>ChatCompletion\<close>: Go's pair of the response (\<open>None\<close> for nil) and the error (its
  text; \<open>None\<close> for nil), and the world after the call.
\<close>

definition ChatCompletion :: "Env \<Rightarrow> Client \<Rightarrow> world \<Rightarrow> ChatCompletionRequest
    \<Rightarrow> (ChatCompletionResponse option \<times> string option) \<times> world" where
  "ChatCompletion env c w req =
     (let req1 = req\<lparr>req_Model := c_model c, req_Stream := False\<rparr> in
      case env_marshal_chat env req1 of
        Inl err \<Rightarrow> ((None, Some (''marshal request: '' @ err)), w)
      | Inr reqBody \<Rightarrow>
          (let url = c_baseURL c @ ''/chat/completions'' in
           case env_new_request env url of
             Some err \<Rightarrow> ((None, Some (''create request: '' @ err)), w)
           | None \<Rightarrow>
               (let httpReq = \<lparr>hq_method = ''POST'', hq_url = url, hq_header = setHeaders c,
                                hq_body = reqBody\<rparr>;
                    w1 = w\<lparr>w_served := Suc (w_served w)\<rparr> in
                case env_do env (w_served w) httpReq of
                  Inl err \<Rightarrow> ((None, Some (''do request: '' @ err)), w1)
                | Inr resp \<Rightarrow>
                    (case hr_read_all resp of
                       (respBody, Some err) \<Rightarrow> ((None, Some (''read response: '' @ err)), w1)
                     | (respBody, None) \<Rightarrow>
                         (let w2 = with_logger w1 (\<lambda>l.
                                LogResponse (LogRequest l (hq_method httpReq) (hq_url httpReq) reqBody)
                                  (hr_StatusCode resp) respBody) in
                          if hr_StatusCode resp \<noteq> StatusOK
                          then ((None, Some (''unexpected status '' @ decimal (hr_StatusCode resp) @
                                            '': '' @ respBody)), w2)
                          else (case env_unmarshal_response env respBody of
                                  Inl err \<Rightarrow> ((None, Some (''unmarshal response: '' @ err)), w2)
                                | Inr decoded \<Rightarrow> ((Some decoded, None), w2)))))))"

text \<open>\<open>ChatCompletionStream\<close>, which hands the body of the response to \<open>parseSSEStream\<close>.\<close>

definition ChatCompletionStream :: "Env \<Rightarrow> Client \<Rightarrow> world \<Rightarrow> ChatCompletionRequest
    \<Rightarrow> (StreamResult option \<times> string option) \<times> world" where
  "ChatCompletionStream env c w req =
     (let req1 = req\<lparr>req_Model := c_model c, req_Stream := True\<rparr>;
          req2 = (if req_StreamOptions req1 = None
                  then req1\<lparr>req_StreamOptions := Some \<lparr>so_IncludeUsage = True\<rparr>\<rparr> else req1) in
      case env_marshal_chat env req2 of
        Inl err \<Rightarrow> ((None, Some (''marshal request: '' @ err)), w)
      | Inr reqBody \<Rightarrow>
          (let url = c_baseURL c @ ''/chat/completions'' in
           case env_new_request env url of
             Some err \<Rightarrow> ((None, Some (''create request: '' @ err)), w)
           | None \<Rightarrow>
               (let httpReq = \<lparr>hq_method = ''POST'', hq_url = url, hq_header = setHeaders c,
                                hq_body = reqBody\<rparr>;
                    w1 = w\<lparr>w_served := Suc (w_served w)\<rparr> in
                case env_do env (w_served w) httpReq of
                  Inl err \<Rightarrow> ((None, Some (''do request: '' @ err)), w1)
                | Inr resp \<Rightarrow>
                    (let w2 = with_logger w1 (\<lambda>l.
                           LogRequest l (hq_method httpReq) (hq_url httpReq) reqBody) in
                     if hr_StatusCode resp \<noteq> StatusOK
                     then (let body = fst (hr_read_all resp);
                               w3 = with_logger w2 (\<lambda>l. LogResponse l (hr_StatusCode resp) body)
                           in ((None, Some (''unexpected status '' @ decimal (hr_StatusCode resp) @
                                            '': '' @ body)), w3))
                     else (case parseSSEStream (env_unmarshal_chunk env) (hr_lines resp)
                                  (hr_scan_err resp) of
                             (res, raw, Some err) \<Rightarrow>
                               ((None, Some (stream_error_text err)), w2)
                           | (res, raw, None) \<Rightarrow>
                               ((res, None),
                                with_logger w2 (\<lambda>l.
                                  LogStreamResponse l (hr_StatusCode resp) raw)))))))"

text \<open>\<open>ApplyTemplate\<close>; its messages are the payload \<open>messages\<close>.\<close>

definition ApplyTemplate :: "Env \<Rightarrow> Client \<Rightarrow> world \<Rightarrow> string
    \<Rightarrow> (string \<times> string option) \<times> world" where
  "ApplyTemplate env c w messages =
     (case env_marshal_template env messages of
        Inl err \<Rightarrow> (([], Some (''marshal request: '' @ err)), w)
      | Inr reqBody \<Rightarrow>
          (let url = c_baseURL c @ ''/apply-template'' in
           case env_new_request env url of
             Some err \<Rightarrow> (([], Some (''create request: '' @ err)), w)
           | None \<Rightarrow>
               (let httpReq = \<lparr>hq_method = ''POST'', hq_url = url, hq_header = setHeaders c,
                                hq_body = reqBody\<rparr>;
                    w1 = w\<lparr>w_served := Suc (w_served w)\<rparr> in
                case env_do env (w_served w) httpReq of
                  Inl err \<Rightarrow> (([], Some (''do request: '' @ err)), w1)
                | Inr resp \<Rightarrow>
                    (case hr_read_all resp of
                       (respBody, Some err) \<Rightarrow> (([], Some (''read response: '' @ err)), w1)
                     | (respBody, None) \<Rightarrow>
                         (let w2 = with_logger w1 (\<lambda>l.
                                LogResponse (LogRequest l (hq_method httpReq) (hq_url httpReq) reqBody)
                                  (hr_StatusCode resp) respBody) in
                          if hr_StatusCode resp \<noteq> StatusOK
                          then (([], Some (''unexpected status '' @ decimal (hr_StatusCode resp) @
                                          '': '' @ respBody)), w2)
                          else (case env_unmarshal_template env respBody of
                                  Inl err \<Rightarrow> (([], Some (''unmarshal response: '' @ err)), w2)
                                | Inr prompt \<Rightarrow> ((prompt, None), w2)))))))"

section \<open>Eval orchestrator (internal/eval/runner.go)\<close>

subsection \<open>Classes and modes\<close>

definition ClassStandard :: string where "ClassStandard = ''standard''"
definition ClassReasoning :: string where "ClassReasoning = ''reasoning''"
definition ClassInterleaved :: string where "ClassInterleaved = ''interleaved''"

type_synonym StreamMode = string

definition ModeBlocking :: StreamMode where "ModeBlocking = ''blocking''"
definition ModeStreaming :: StreamMode where "ModeStreaming = ''streaming''"
definition ModeBoth :: StreamMode where "ModeBoth = ''both''"

definition AllModes :: "string list" where
  "AllModes = [ModeBlocking, ModeStreaming, ModeBoth]"

definition AllClasses :: "string list" where
  "AllClasses = [ClassStandard, ClassReasoning, ClassInterleaved]"

definition ClassMatches :: "string \<Rightarrow> string \<Rightarrow> bool" where
  "ClassMatches evalClass requestedClass =
     (if requestedClass = [] then True
      else if evalClass = requestedClass then True
      else if requestedClass = ClassReasoning \<and> evalClass = ClassStandard then True
      else if requestedClass = ClassInterleaved \<and>
              (evalClass = ClassStandard \<or> evalClass = ClassReasoning) then True
      else False)"

subsection \<open>Evals and results\<close>

record Result =
  Name :: string
  Category :: string
  Passed :: bool
  Message :: string
  Duration :: int

text \<open>
  The body of an eval, \<open>Run(ctx, c)\<close>, is code of the eval package that the runner does not
  look into. All it is given is the client, and all the client offers are its three request
  methods (the logger inside the client is an unexported field of another package). So a
  body is a tree: it returns a \<open>Result\<close>, or it calls one of the three methods and goes on
  with what the method returns.
\<close>

datatype call =
  CallChatCompletion ChatCompletionRequest
| CallChatCompletionStream ChatCompletionRequest
| CallApplyTemplate string

datatype reply =
  CompletionReply "ChatCompletionResponse option" "string option"
| StreamReply "StreamResult option" "string option"
| TemplateReply string "string option"

datatype body = Return Result | Call call "reply \<Rightarrow> body"

definition perform :: "Env \<Rightarrow> Client \<Rightarrow> world \<Rightarrow> call \<Rightarrow> reply \<times> world" where
  "perform env c w cl =
     (case cl of
        CallChatCompletion req \<Rightarrow>
          (case ChatCompletion env c w req of ((resp, err), w1) \<Rightarrow> (CompletionReply resp err, w1))
      | CallChatCompletionStream req \<Rightarrow>
          (case ChatCompletionStream env c w req of ((res, err), w1) \<Rightarrow> (StreamReply res err, w1))
      | CallApplyTemplate messages \<Rightarrow>
          (case ApplyTemplate env c w messages of
             ((prompt, err), w1) \<Rightarrow> (TemplateReply prompt err, w1)))"

text \<open>Running a body against the client: the \<open>Result\<close> it returns and the world it leaves.\<close>

primrec run_body :: "Env \<Rightarrow> Client \<Rightarrow> body \<Rightarrow> world \<Rightarrow> Result \<times> world" where
  "run_body env c (Return res) = (\<lambda>w. (res, w))"
| "run_body env c (Call cl continue) =
     (\<lambda>w. case perform env c w cl of (rep, w1) \<Rightarrow> run_body env c (continue rep) w1)"

text \<open>
  An \<open>Eval\<close> is an interface value: a pointer to a struct of the eval package. The model keeps
  what the runner can observe of it. \<open>eval_Name\<close>, \<open>eval_Category\<close> and \<open>eval_Class\<close> are
  the results of the three methods (constants in every eval of the package).
  \<open>mode_switching\<close> says whether the dynamic type implements \<open>StreamModeEval\<close>, and
  \<open>streaming\<close> is the field that \<open>SetStreaming\<close> writes. \<open>default_disabled\<close> is \<open>None\<close>
  when the type does not implement \<open>DefaultDisabled\<close> and otherwise what
  \<open>IsDefaultDisabled()\<close> returns. \<open>eval_Run\<close> is the body of \<open>Run\<close>, as a function
  of the one piece of the eval's state that the runner can change, the \<open>streaming\<close> field.
  \<open>eval_elapsed\<close> is the wall-clock time in nanoseconds that the runner measures around the
  body; it may depend on that field and on the world the body starts in, the logger included.
\<close>

record Eval =
  eval_Name :: string
  eval_Category :: string
  eval_Class :: string
  mode_switching :: bool
  streaming :: bool
  default_disabled :: "bool option"
  eval_Run :: "bool \<Rightarrow> body"
  eval_elapsed :: "bool \<Rightarrow> world \<Rightarrow> int"

definition SetStreaming :: "Eval \<Rightarrow> bool \<Rightarrow> Eval" where
  "SetStreaming e s = e\<lparr>streaming := s\<rparr>"

definition IsDefaultDisabled :: "Eval \<Rightarrow> bool" where
  "IsDefaultDisabled e = (case default_disabled e of Some dd \<Rightarrow> dd | None \<Rightarrow> False)"

record RunnerConfig =
  cfg_Verbose :: bool
  cfg_Filter :: string
  cfg_Class :: string
  cfg_All :: bool
  cfg_Logger :: "Logger option"
  cfg_Jobs :: int
  cfg_Mode :: StreamMode

text \<open>\<open>strings.Contains\<close>: \<open>substr\<close> occurs in \<open>s\<close> at some offset.\<close>

definition Contains :: "string \<Rightarrow> string \<Rightarrow> bool" where
  "Contains s substr =
     list_ex (\<lambda>i. take (length substr) (drop i s) = substr) [0..<Suc (length s)]"

text \<open>The filter loop at the head of \<open>Run\<close>, one \<open>continue\<close> per test.\<close>

fun filter_evals :: "RunnerConfig \<Rightarrow> Eval list \<Rightarrow> Eval list" where
  "filter_evals cfg [] = []"
| "filter_evals cfg (e # es) =
     (if cfg_Filter cfg \<noteq> [] \<and> \<not> Contains (eval_Name e) (cfg_Filter cfg)
      then filter_evals cfg es
      else if \<not> ClassMatches (eval_Class e) (cfg_Class cfg) then filter_evals cfg es
      else if \<not> cfg_All cfg \<and> IsDefaultDisabled e then filter_evals cfg es
      else e # filter_evals cfg es)"

subsection \<open>Running one eval\<close>

text \<open>
  The runner holds the client; the server and library behind the client are \<open>rn_env\<close>.
\<close>

record Runner =
  rn_client :: Client
  rn_env :: Env

text \<open>
  \<open>runSingleEval\<close> in two halves, so that the worker pool below can interleave them: the
  first half sets the mode, builds the name and starts the log; the second half runs the
  body against the client and closes the log. The world is threaded through (its logger is
  the one logger that \<open>main\<close> hands to the runner and to the client), and so is the eval,
  which \<open>SetStreaming\<close> mutates.
\<close>

definition prepare_eval :: "world \<Rightarrow> Eval \<Rightarrow> bool \<Rightarrow> world \<times> Eval \<times> string" where
  "prepare_eval w e streaming_mode =
     (let e1 = (if mode_switching e then SetStreaming e streaming_mode else e);
          name = (if streaming_mode then eval_Name e1 @ '' (streaming)''
                  else eval_Name e1 @ '' (blocking)'');
          w1 = with_logger w (\<lambda>l. StartEval l name)
      in (w1, e1, name))"

definition execute_eval :: "Runner \<Rightarrow> world \<Rightarrow> Eval \<Rightarrow> string \<Rightarrow> world \<times> Result" where
  "execute_eval rn w e name =
     (case run_body (rn_env rn) (rn_client rn) (eval_Run e (streaming e)) w of
        (res, w1) \<Rightarrow>
          (let res1 = res\<lparr>Duration := eval_elapsed e (streaming e) w\<rparr>;
               res2 = res1\<lparr>Name := name\<rparr>;
               res3 = res2\<lparr>Category := eval_Category e\<rparr>;
               w2 = with_logger w1 (\<lambda>l. EndEval (LogResult l (Passed res3) (Message res3)))
           in (w2, res3)))"

definition runSingleEval :: "Runner \<Rightarrow> world \<Rightarrow> Eval \<Rightarrow> bool \<Rightarrow> world \<times> Eval \<times> Result" where
  "runSingleEval rn w e streaming_mode =
     (case prepare_eval w e streaming_mode of
        (w1, e1, name) \<Rightarrow>
          (case execute_eval rn w1 e1 name of (w2, res) \<Rightarrow> (w2, e1, res)))"

definition runEvalInModes :: "Runner \<Rightarrow> RunnerConfig \<Rightarrow> world \<Rightarrow> Eval
    \<Rightarrow> world \<times> Eval \<times> Result list" where
  "runEvalInModes rn cfg w e =
     (let mode = (if cfg_Mode cfg = [] then ModeBoth else cfg_Mode cfg) in
      if mode = ModeBlocking then
        (case runSingleEval rn w e False of (w1, e1, r1) \<Rightarrow> (w1, e1, [r1]))
      else if mode = ModeStreaming then
        (case runSingleEval rn w e True of (w1, e1, r1) \<Rightarrow> (w1, e1, [r1]))
      else if mode = ModeBoth then
        (case runSingleEval rn w e False of
           (w1, e1, r1) \<Rightarrow>
             (case runSingleEval rn w1 e1 True of (w2, e2, r2) \<Rightarrow> (w2, e2, [r1, r2])))
      else (w, e, []))"

subsection \<open>Sequential execution\<close>

text \<open>
  \<open>runSequential\<close>, with the results so far as accumulator. What it prints (category
  headers, one line per result) is console output and not part of the model.
\<close>

fun runSequential :: "Runner \<Rightarrow> RunnerConfig \<Rightarrow> world \<Rightarrow> Eval list \<Rightarrow> Result list
    \<Rightarrow> world \<times> Result list" where
  "runSequential rn cfg w [] results = (w, results)"
| "runSequential rn cfg w (e # es) results =
     (case runEvalInModes rn cfg w e of
        (w1, e1, rs) \<Rightarrow> runSequential rn cfg w1 es (results @ rs))"

subsection \<open>Parallel execution\<close>

text \<open>
  \<open>runParallel\<close> starts \<open>Jobs\<close> workers and a collector, sends the jobs over an unbuffered
  channel, closes it, waits for the workers, closes the result channel and waits for the
  collector. It is modelled as a transition system over the state of the pool. A job names its
  eval by its index in \<open>p_store\<close>, the eval objects shared by all workers; \<open>p_world\<close> is
  the world they share.
\<close>

record evalJob =
  job_eval :: nat
  job_streaming :: bool

text \<open>The jobs in the order in which the main goroutine sends them.\<close>

fun jobs_from :: "StreamMode \<Rightarrow> nat \<Rightarrow> nat \<Rightarrow> evalJob list" where
  "jobs_from mode i 0 = []"
| "jobs_from mode i (Suc n) =
     (if mode = ModeBlocking then [\<lparr>job_eval = i, job_streaming = False\<rparr>]
      else if mode = ModeStreaming then [\<lparr>job_eval = i, job_streaming = True\<rparr>]
      else if mode = ModeBoth then
        [\<lparr>job_eval = i, job_streaming = False\<rparr>, \<lparr>job_eval = i, job_streaming = True\<rparr>]
      else []) @ jobs_from mode (Suc i) n"

text \<open>
  A worker is waiting for a job, has received one, has run the first half of
  \<open>runSingleEval\<close> for it, holds a result to send, or has left its loop.
\<close>

datatype worker = Idle | Received evalJob | Prepared nat string | Sending Result | Exited

record pool =
  p_queue :: "evalJob list"
  p_workers :: "worker list"
  p_store :: "Eval list"
  p_world :: world
  p_results :: "Result list"

text \<open>
  One step of one worker \<open>w\<close>. \<open>Receive\<close> is the rendezvous on the job channel with the main
  goroutine, which sends the jobs in order. \<open>Prepare\<close> and \<open>Execute\<close> are the two halves of
  \<open>runSingleEval\<close> on the shared eval and the shared world; the body runs as one step and
  reads the \<open>streaming\<close> field as it stands when it starts. \<open>Deliver\<close> is the rendezvous
  on the result channel with the collector, which appends to \<open>results\<close>. \<open>Leave\<close> is the end
  of the worker's loop once the job channel is closed, which the main goroutine does after
  the last job is taken.
\<close>

inductive pool_step :: "Runner \<Rightarrow> pool \<Rightarrow> pool \<Rightarrow> bool" for rn :: Runner where
  Receive: "w < length (p_workers s) \<Longrightarrow> p_workers s ! w = Idle \<Longrightarrow> p_queue s = job # rest \<Longrightarrow>
     pool_step rn s (s\<lparr>p_queue := rest, p_workers := (p_workers s)[w := Received job]\<rparr>)"
| Prepare: "w < length (p_workers s) \<Longrightarrow> p_workers s ! w = Received job \<Longrightarrow>
     job_eval job < length (p_store s) \<Longrightarrow>
     prepare_eval (p_world s) (p_store s ! job_eval job) (job_streaming job) = (w1, e, name) \<Longrightarrow>
     pool_step rn s (s\<lparr>p_workers := (p_workers s)[w := Prepared (job_eval job) name],
                        p_store := (p_store s)[job_eval job := e], p_world := w1\<rparr>)"
| Execute: "w < length (p_workers s) \<Longrightarrow> p_workers s ! w = Prepared i name \<Longrightarrow>
     i < length (p_store s) \<Longrightarrow>
     execute_eval rn (p_world s) (p_store s ! i) name = (w1, res) \<Longrightarrow>
     pool_step rn s (s\<lparr>p_workers := (p_workers s)[w := Sending res], p_world := w1\<rparr>)"
| Deliver: "w < length (p_workers s) \<Longrightarrow> p_workers s ! w = Sending res \<Longrightarrow>
     pool_step rn s (s\<lparr>p_workers := (p_workers s)[w := Idle],
                        p_results := p_results s @ [res]\<rparr>)"
| Leave: "w < length (p_workers s) \<Longrightarrow> p_workers s ! w = Idle \<Longrightarrow> p_queue s = [] \<Longrightarrow>
     pool_step rn s (s\<lparr>p_workers := (p_workers s)[w := Exited]\<rparr>)"

definition pool_init :: "RunnerConfig \<Rightarrow> Eval list \<Rightarrow> pool" where
  "pool_init cfg evals =
     \<lparr>p_queue = jobs_from (if cfg_Mode cfg = [] then ModeBoth else cfg_Mode cfg) 0 (length evals),
      p_workers = replicate (nat (cfg_Jobs cfg)) Idle,
      p_store = evals,
      p_world = \<lparr>w_logger = cfg_Logger cfg, w_served = 0\<rparr>,
      p_results = []\<rparr>"

text \<open>\<open>wg.Wait()\<close> returns when every worker has left, after every job was taken.\<close>

definition pool_done :: "pool \<Rightarrow> bool" where
  "pool_done s \<longleftrightarrow> p_queue s = [] \<and> list_all (\<lambda>w. w = Exited) (p_workers s)"

text \<open>\<open>runParallel\<close> returns \<open>results\<close> when some run of the pool ends with them.\<close>

definition runParallel_returns :: "Runner \<Rightarrow> RunnerConfig \<Rightarrow> Eval list \<Rightarrow> Result list \<Rightarrow> bool" where
  "runParallel_returns rn cfg evals results \<longleftrightarrow>
     (\<exists>s. (pool_step rn)\<^sup>*\<^sup>* (pool_init cfg evals) s \<and> pool_done s \<and> p_results s = results)"

subsection \<open>Run\<close>

inductive Run_returns :: "Runner \<Rightarrow> RunnerConfig \<Rightarrow> Eval list \<Rightarrow> Result list \<Rightarrow> bool" where
  Sequential: "cfg_Jobs cfg \<le> 1 \<Longrightarrow>
     runSequential rn cfg \<lparr>w_logger = cfg_Logger cfg, w_served = 0\<rparr> (filter_evals cfg evals) [] =
       (w, results) \<Longrightarrow>
     Run_returns rn cfg evals results"
| Parallel: "\<not> cfg_Jobs cfg \<le> 1 \<Longrightarrow>
     runParallel_returns rn cfg (filter_evals cfg evals) results \<Longrightarrow>
     Run_returns rn cfg evals results"

section \<open>Specification vocabulary for the stream reconstructor\<close>

text \<open>
  The definitions of this section are not translations of code. They say, in terms of the
  decoded chunks of a stream, what the claims about the reconstructor speak of: the chunks a
  stream delivers before it ends, the tool-call fragments in arrival order, the fragments of
  one position folded into a builder, the most recent non-empty value of a field.
\<close>

definition fragments_of_chunk :: "ChatCompletionChunk \<Rightarrow> ToolCallDelta list" where
  "fragments_of_chunk c = concat (map (\<lambda>ch. cd_ToolCalls (cc_Delta ch)) (ccc_Choices c))"

definition fragments :: "ChatCompletionChunk list \<Rightarrow> ToolCallDelta list" where
  "fragments cs = concat (map fragments_of_chunk cs)"

text \<open>The builder that the fragments of position \<open>p\<close> add up to, taken in arrival order.\<close>

definition builder_for :: "ToolCallDelta list \<Rightarrow> int \<Rightarrow> toolCallBuilder" where
  "builder_for frs p = foldl Accumulate new_builder (filter (\<lambda>d. tcd_Index d = p) frs)"

text \<open>The builders hold exactly the positions seen, each with the fold of its own fragments.\<close>

definition routed :: "ToolCallDelta list \<Rightarrow> builders \<Rightarrow> bool" where
  "routed frs bs \<longleftrightarrow> distinct (map fst bs) \<and>
     (\<forall>p. map_of bs p =
        (if p \<in> tcd_Index ` set frs then Some (builder_for frs p) else None))"

definition content_of_chunk :: "ChatCompletionChunk \<Rightarrow> string" where
  "content_of_chunk c = concat (map (\<lambda>ch. cd_Content (cc_Delta ch)) (ccc_Choices c))"

definition reasoning_of_chunk :: "ChatCompletionChunk \<Rightarrow> string" where
  "reasoning_of_chunk c = concat (map (\<lambda>ch. cd_ReasoningContent (cc_Delta ch)) (ccc_Choices c))"

text \<open>The usage snapshot of the last chunk that carries one; none if no chunk does.\<close>

definition last_usage :: "ChatCompletionChunk list \<Rightarrow> Usage option" where
  "last_usage cs =
     (let carrying = filter (\<lambda>c. ccc_Usage c \<noteq> None) cs
      in if carrying = [] then None else ccc_Usage (last carrying))"

text \<open>
  The chunks a stream delivers: those decoded from its data lines, up to the sentinel, the
  first line that does not decode, or the end of the lines.
\<close>

fun stream_chunks :: "(string \<Rightarrow> string + ChatCompletionChunk) \<Rightarrow> string list
    \<Rightarrow> ChatCompletionChunk list" where
  "stream_chunks um [] = []"
| "stream_chunks um (line # rest) =
     (if \<not> HasPrefix line ''data: '' then stream_chunks um rest
      else if TrimPrefix line ''data: '' = ''[DONE]'' then []
      else (case um (TrimPrefix line ''data: '') of
              Inl err \<Rightarrow> []
            | Inr chunk \<Rightarrow> chunk # stream_chunks um rest))"

text \<open>The loop invariant: every accumulated field is determined by the chunks recorded so far.\<close>

definition tracks :: "acc \<Rightarrow> bool" where
  "tracks a \<longleftrightarrow>
     sr_Content (result a) = concat (map content_of_chunk (sr_Chunks (result a))) \<and>
     sr_ReasoningContent (result a) = concat (map reasoning_of_chunk (sr_Chunks (result a))) \<and>
     sr_Usage (result a) = last_usage (sr_Chunks (result a)) \<and>
     routed (fragments (sr_Chunks (result a))) (toolCallBuilders a) \<and>
     sr_ToolCalls (result a) = []"

text \<open>
  The positions the final walk emits: those below the number of distinct positions seen, in
  ascending order, at which a fragment was seen.
\<close>

definition emitted_positions :: "ToolCallDelta list \<Rightarrow> int list" where
  "emitted_positions frs =
     filter (\<lambda>p. p \<in> set (map tcd_Index frs))
       [0..int (length (remdups (map tcd_Index frs))) - 1]"

text \<open>The most recent non-empty value of a field; the empty string if every value is empty.\<close>

definition last_non_empty :: "string list \<Rightarrow> string" where
  "last_non_empty xs =
     (let set_values = filter (\<lambda>s. s \<noteq> []) xs
      in if set_values = [] then [] else last set_values)"

text \<open>The same, over a builder whose field already holds \<open>old\<close>.\<close>

definition sticky :: "string \<Rightarrow> string list \<Rightarrow> string" where
  "sticky old xs = (if filter (\<lambda>s. s \<noteq> []) xs = [] then old else last_non_empty xs)"

subsection \<open>Example streams\<close>

text \<open>
  Concrete fragments, chunks and lines at which the theorems are instantiated. The decoder
  \<open>demo_unmarshal\<close> knows three payloads and rejects every other one.
\<close>

definition frag :: "int \<Rightarrow> string \<Rightarrow> string \<Rightarrow> string \<Rightarrow> string \<Rightarrow> ToolCallDelta" where
  "frag i ident typ name args =
     \<lparr>tcd_Index = i, tcd_ID = ident, tcd_Type = typ,
      tcd_Function = \<lparr>tcfd_Name = name, tcfd_Arguments = args\<rparr>\<rparr>"

definition choice_of :: "string \<Rightarrow> string \<Rightarrow> ToolCallDelta list \<Rightarrow> ChunkChoice" where
  "choice_of content reasoning tcs =
     \<lparr>cc_Index = 0,
      cc_Delta = \<lparr>cd_Role = [], cd_Content = content, cd_ReasoningContent = reasoning,
                  cd_ToolCalls = tcs\<rparr>,
      cc_FinishReason = None\<rparr>"

definition chunk_of :: "ChunkChoice list \<Rightarrow> Usage option \<Rightarrow> ChatCompletionChunk" where
  "chunk_of choices usage =
     \<lparr>ccc_ID = [], ccc_Object = [], ccc_Created = 0, ccc_Model = [],
      ccc_Choices = choices, ccc_Usage = usage\<rparr>"

definition usage_of :: "int \<Rightarrow> int \<Rightarrow> Usage" where
  "usage_of p c = \<lparr>PromptTokens = p, CompletionTokens = c, TotalTokens = p + c\<rparr>"

definition demo_chunk_a :: ChatCompletionChunk where
  "demo_chunk_a = chunk_of [choice_of ''Hel'' [] [frag 0 ''abc'' ''function'' ''get_weather'' []]]
     (Some (usage_of 7 1))"

definition demo_chunk_b :: ChatCompletionChunk where
  "demo_chunk_b = chunk_of [choice_of ''lo'' ''hm'' [frag 0 [] [] [] ''{loc:'', frag 2 ''z'' [] ''other'' ''{}'']]
     None"

definition demo_chunk_c :: ChatCompletionChunk where
  "demo_chunk_c = chunk_of [choice_of [] [] [frag 0 [] [] [] ''SF}''], choice_of ''!'' ''m'' []]
     (Some (usage_of 7 9))"

definition demo_unmarshal :: "string \<Rightarrow> string + ChatCompletionChunk" where
  "demo_unmarshal data =
     (if data = ''A'' then Inr demo_chunk_a
      else if data = ''B'' then Inr demo_chunk_b
      else if data = ''C'' then Inr demo_chunk_c
      else Inl ''invalid character'')"

definition demo_lines :: "string list" where
  "demo_lines = [''data: A'', [], ''data: B'', '': ping'', ''data: C'', ''data: [DONE]'', ''data: ?'']"

text \<open>
  A line that the loop gets past: one without the data prefix, or a data line that is not
  the sentinel and decodes. \<open>frames\<close> is what such lines leave in the raw buffer.
\<close>

definition passes :: "(string \<Rightarrow> string + ChatCompletionChunk) \<Rightarrow> string \<Rightarrow> bool" where
  "passes um line \<longleftrightarrow>
     (if HasPrefix line ''data: ''
      then TrimPrefix line ''data: '' \<noteq> ''[DONE]'' \<and>
           (case um (TrimPrefix line ''data: '') of Inl err \<Rightarrow> False | Inr chunk \<Rightarrow> True)
      else True)"

definition frames :: "string list \<Rightarrow> string" where
  "frames ls = concat (map (\<lambda>l. l @ [CHR 0x0A]) ls)"

definition demo_call :: ToolCall where
  "demo_call = \<lparr>tc_ID = ''abc'', tc_Type = ''function'',
     tc_Function = \<lparr>tcf_Name = ''get_weather'', tcf_Arguments = ''{loc:SF}''\<rparr>\<rparr>"

definition demo_result :: StreamResult where
  "demo_result = \<lparr>sr_Content = ''Hello!'', sr_ReasoningContent = ''hmm'',
     sr_ToolCalls = [demo_call], sr_Usage = Some (usage_of 7 9),
     sr_Chunks = [demo_chunk_a, demo_chunk_b, demo_chunk_c]\<rparr>"

definition demo_frags :: "ToolCallDelta list" where
  "demo_frags = [frag 0 ''abc'' ''function'' ''get_weather'' [], frag 1 ''x'' [] [] ''{'',
     frag 0 [] [] [] ''{loc:'', frag 0 [] [] [] ''SF}'']"

section \<open>Specification vocabulary for the orchestrator\<close>

text \<open>
  As for the reconstructor, the definitions of this section are not translations of code:
  they name what the claims about the orchestrator speak of.
\<close>

text \<open>The place of a class in the hierarchy standard, reasoning, interleaved.\<close>

definition tier_rank :: "string \<Rightarrow> nat" where
  "tier_rank c = (if c = ClassStandard then 0 else if c = ClassReasoning then 1 else 2)"

text \<open>The name filter and the default-enablement filter of \<open>Run\<close>, without the class filter.\<close>

definition other_filters :: "RunnerConfig \<Rightarrow> Eval \<Rightarrow> bool" where
  "other_filters cfg e \<longleftrightarrow>
     (cfg_Filter cfg = [] \<or> Contains (eval_Name e) (cfg_Filter cfg)) \<and>
     (cfg_All cfg \<or> \<not> IsDefaultDisabled e)"

text \<open>
  The suffix that qualifies a name by its delivery mode, the modes a configuration selects
  (\<open>False\<close> blocking, \<open>True\<close> streaming; a mode string that is none of the three known
  ones and not empty selects none), and the name and category that the result of a (case,
  mode) pair must carry.
\<close>

definition mode_suffix :: "bool \<Rightarrow> string" where
  "mode_suffix s = (if s then '' (streaming)'' else '' (blocking)'')"

definition modes_selected :: "StreamMode \<Rightarrow> bool list" where
  "modes_selected m =
     (if m = ModeBlocking then [False]
      else if m = ModeStreaming then [True]
      else if m = ModeBoth \<or> m = [] then [False, True]
      else [])"

definition job_label :: "Eval \<Rightarrow> bool \<Rightarrow> string \<times> string" where
  "job_label e s = (eval_Name e @ mode_suffix s, eval_Category e)"

text \<open>What the body of an eval returns when it is run in a world, on the eval's own state.\<close>

definition body_result :: "Runner \<Rightarrow> world \<Rightarrow> Eval \<Rightarrow> Result" where
  "body_result rn w e = fst (run_body (rn_env rn) (rn_client rn) (eval_Run e (streaming e)) w)"

definition label :: "Result \<Rightarrow> string \<times> string" where
  "label r = (Name r, Category r)"

definition expected_labels :: "RunnerConfig \<Rightarrow> Eval list \<Rightarrow> (string \<times> string) list" where
  "expected_labels cfg evals =
     concat (map (\<lambda>e. map (job_label e) (modes_selected (cfg_Mode cfg))) evals)"

subsection \<open>Bookkeeping for the worker pool\<close>

text \<open>
  \<open>accounted\<close> is the multiset of the labels of all jobs, wherever they are: still in the
  queue, held by a worker in one of its states, or delivered as a result. \<open>pool_wf\<close> is the
  invariant of the pool, \<open>pool_measure\<close> a quantity that every step decreases, and
  \<open>same_pool\<close> relates two pool states that differ in the logger only.
\<close>

definition job_label_in :: "Eval list \<Rightarrow> evalJob \<Rightarrow> string \<times> string" where
  "job_label_in evals job = job_label (evals ! job_eval job) (job_streaming job)"

definition pending :: "Eval list \<Rightarrow> worker \<Rightarrow> (string \<times> string) multiset" where
  "pending evals w =
     (case w of
        Idle \<Rightarrow> {#}
      | Received job \<Rightarrow> {#job_label_in evals job#}
      | Prepared i name \<Rightarrow> {#(name, eval_Category (evals ! i))#}
      | Sending res \<Rightarrow> {#label res#}
      | Exited \<Rightarrow> {#})"

definition accounted :: "Eval list \<Rightarrow> pool \<Rightarrow> (string \<times> string) multiset" where
  "accounted evals s =
     mset (map label (p_results s)) + sum_list (map (pending evals) (p_workers s)) +
     mset (map (job_label_in evals) (p_queue s))"

definition in_range :: "nat \<Rightarrow> worker \<Rightarrow> bool" where
  "in_range n w =
     (case w of Received job \<Rightarrow> job_eval job < n
      | Prepared i name \<Rightarrow> i < n
      | _ \<Rightarrow> True)"

definition pool_wf :: "Eval list \<Rightarrow> pool \<Rightarrow> bool" where
  "pool_wf evals s \<longleftrightarrow>
     map eval_Name (p_store s) = map eval_Name evals \<and>
     map eval_Category (p_store s) = map eval_Category evals \<and>
     list_all (\<lambda>job. job_eval job < length evals) (p_queue s) \<and>
     list_all (in_range (length evals)) (p_workers s) \<and>
     p_workers s \<noteq> [] \<and>
     (p_queue s \<noteq> [] \<longrightarrow> Exited \<notin> set (p_workers s))"

definition weight :: "worker \<Rightarrow> nat" where
  "weight w =
     (case w of Idle \<Rightarrow> 1 | Received job \<Rightarrow> 4 | Prepared i name \<Rightarrow> 3 | Sending res \<Rightarrow> 2
      | Exited \<Rightarrow> 0)"

definition pool_measure :: "pool \<Rightarrow> nat" where
  "pool_measure s = 5 * length (p_queue s) + sum_list (map weight (p_workers s))"

text \<open>
  The outcome of a result is all of it but the measured duration. Two worlds agree when they
  differ in the logger only, and two pool states are the same pool when they differ in the
  logger and in measured durations only.
\<close>

definition outcome :: "Result \<Rightarrow> string \<times> string \<times> bool \<times> string" where
  "outcome r = (Name r, Category r, Passed r, Message r)"

definition outcome_of :: "worker \<Rightarrow> worker + string \<times> string \<times> bool \<times> string" where
  "outcome_of wk = (case wk of Sending res \<Rightarrow> Inr (outcome res) | _ \<Rightarrow> Inl wk)"

definition agree :: "world \<Rightarrow> world \<Rightarrow> bool" where
  "agree w w' \<longleftrightarrow> w_served w = w_served w'"

definition same_pool :: "pool \<Rightarrow> pool \<Rightarrow> bool" where
  "same_pool s t \<longleftrightarrow>
     p_queue s = p_queue t \<and> map outcome_of (p_workers s) = map outcome_of (p_workers t) \<and>
     p_store s = p_store t \<and> map outcome (p_results s) = map outcome (p_results t) \<and>
     agree (p_world s) (p_world t)"


subsection \<open>Example registry\<close>

text \<open>
  A server, a client and three evals, one of them without the mode-switching capability,
  at which the theorems are instantiated. The example server answers a blocking request with
  a response that has no choices and a streaming request with the example stream, so the
  example body, which follows the shape of the bodies of the eval package, fails in blocking
  mode and passes in streaming mode. \<open>demo_agentic\<close> has no \<open>streaming\<close> field to read:
  its body always streams. \<open>demo_cfg\<close> is a configuration with one job (sequential
  execution) and \<open>demo_run\<close> the result list of the sequential run.
\<close>

definition demo_request :: ChatCompletionRequest where
  "demo_request = \<lparr>req_Model = [], req_Stream = False, req_StreamOptions = None,
     req_payload = ''What is 15 * 27?''\<rparr>"

definition demo_response :: ChatCompletionResponse where
  "demo_response = \<lparr>cr_ID = ''r1'', cr_Object = ''chat.completion'', cr_Created = 0,
     cr_Model = ''m'', cr_Choices = [], cr_Usage = None\<rparr>"

definition demo_env :: Env where
  "demo_env =
     \<lparr>env_marshal_chat = (\<lambda>req. Inr (if req_Stream req then ''stream'' else ''block'')),
      env_marshal_template = (\<lambda>messages. Inr messages),
      env_new_request = (\<lambda>url. None),
      env_do = (\<lambda>n req.
        if hq_body req = ''stream''
        then Inr \<lparr>hr_StatusCode = 200, hr_read_all = ([], None), hr_lines = demo_lines,
                  hr_scan_err = None\<rparr>
        else Inr \<lparr>hr_StatusCode = 200, hr_read_all = (''{}'', None), hr_lines = [],
                  hr_scan_err = None\<rparr>),
      env_unmarshal_response = (\<lambda>data. Inr demo_response),
      env_unmarshal_chunk = demo_unmarshal,
      env_unmarshal_template = (\<lambda>data. Inr data)\<rparr>"

definition demo_rn :: Runner where
  "demo_rn = \<lparr>rn_client = \<lparr>c_baseURL = ''http://localhost:8080/v1'', c_apiKey = [],
                               c_model = ''m''\<rparr>,
               rn_env = demo_env\<rparr>"

definition demo_failed :: "string \<Rightarrow> Result" where
  "demo_failed message =
     \<lparr>Name = [], Category = [], Passed = False, Message = message, Duration = 0\<rparr>"

definition demo_passed :: Result where
  "demo_passed = \<lparr>Name = [], Category = [], Passed = True, Message = [], Duration = 0\<rparr>"

definition demo_check :: "reply \<Rightarrow> body" where
  "demo_check rep =
     Return (case rep of
        CompletionReply resp err \<Rightarrow>
          (case err of
             Some text \<Rightarrow> demo_failed (''request failed: '' @ text)
           | None \<Rightarrow>
               (case resp of
                  None \<Rightarrow> demo_failed ''no response''
                | Some r \<Rightarrow>
                    if cr_Choices r = [] then demo_failed ''no choices in response''
                    else demo_passed))
      | StreamReply res err \<Rightarrow>
          (case err of
             Some text \<Rightarrow> demo_failed (''request failed: '' @ text)
           | None \<Rightarrow>
               (case res of
                  None \<Rightarrow> demo_failed ''no response''
                | Some r \<Rightarrow>
                    if sr_Content r = [] then demo_failed ''content is empty''
                    else demo_passed))
      | TemplateReply prompt err \<Rightarrow> demo_failed ''unexpected reply'')"

definition demo_body :: "bool \<Rightarrow> body" where
  "demo_body s =
     (if s then Call (CallChatCompletionStream demo_request) demo_check
      else Call (CallChatCompletion demo_request) demo_check)"

definition demo_eval :: "string \<Rightarrow> string \<Rightarrow> string \<Rightarrow> bool \<Rightarrow> Eval" where
  "demo_eval name category class switching =
     \<lparr>eval_Name = name, eval_Category = category, eval_Class = class,
      mode_switching = switching, streaming = False, default_disabled = None,
      eval_Run = (if switching then demo_body else (\<lambda>s. demo_body True)),
      eval_elapsed = (\<lambda>s w. 5)\<rparr>"

definition demo_json :: Eval where
  "demo_json = demo_eval ''json_schema'' ''Structured Output'' ClassStandard True"

definition demo_reasoning :: Eval where
  "demo_reasoning = demo_eval ''reasoning_present'' ''Reasoning'' ClassReasoning True"

definition demo_agentic :: Eval where
  "demo_agentic = demo_eval ''agentic_tool_call'' ''Agentic'' ClassInterleaved False"

definition demo_evals :: "Eval list" where
  "demo_evals = [demo_json, demo_reasoning, demo_agentic]"

definition demo_cfg :: "string \<Rightarrow> StreamMode \<Rightarrow> RunnerConfig" where
  "demo_cfg class mode =
     \<lparr>cfg_Verbose = False, cfg_Filter = [], cfg_Class = class, cfg_All = False,
      cfg_Logger = None, cfg_Jobs = 1, cfg_Mode = mode\<rparr>"

definition demo_logger :: Logger where
  "demo_logger = \<lparr>lg_dir = ''logs'', lg_current = None, lg_now = ''2025-01-15T14:30:22Z'',
     lg_join = (\<lambda>dir file. dir @ ''/'' @ file), lg_indent = (\<lambda>data. None),
     lg_disk_ok = (\<lambda>f. True), lg_written = []\<rparr>"

definition demo_world :: world where
  "demo_world = \<lparr>w_logger = None, w_served = 0\<rparr>"

definition demo_run :: "RunnerConfig \<Rightarrow> Eval list \<Rightarrow> Result list" where
  "demo_run cfg evals =
     snd (runSequential demo_rn cfg \<lparr>w_logger = cfg_Logger cfg, w_served = 0\<rparr>
            (filter_evals cfg evals) [])"

















section \<open>Properties of the stream reconstructor\<close>

subsection \<open>Routing fragments to builders\<close>

lemma route_distinct: "distinct (map fst bs) \<Longrightarrow> distinct (map fst (route bs tc))"
  by (simp add: route_def distinct_update split: option.split)

lemma route_map_of:
  "map_of (route bs tc) =
     (map_of bs)(tcd_Index tc \<mapsto>
        Accumulate (case map_of bs (tcd_Index tc) of Some b \<Rightarrow> b | None \<Rightarrow> new_builder) tc)"
  by (simp add: route_def update_conv' split: option.split)

lemma filter_unseen:
  "k \<notin> tcd_Index ` set frs \<Longrightarrow> filter (\<lambda>d. tcd_Index d = k) frs = []"
  by (induction frs) auto

lemma routed_step:
  assumes "routed frs bs"
  shows "routed (frs @ [tc]) (route bs tc)"
proof -
  let ?k = "tcd_Index tc"
  have d: "distinct (map fst (route bs tc))"
    using assms by (simp add: routed_def route_distinct)
  have m: "map_of bs p = (if p \<in> tcd_Index ` set frs then Some (builder_for frs p) else None)"
    for p using assms unfolding routed_def by blast
  have v: "map_of (route bs tc) p =
      (if p \<in> tcd_Index ` set (frs @ [tc]) then Some (builder_for (frs @ [tc]) p) else None)"
    for p
  proof (cases "p = ?k")
    case True
    then show ?thesis
      by (simp add: route_map_of m builder_for_def filter_unseen)
  next
    case False
    then show ?thesis
      by (simp add: route_map_of m builder_for_def)
  qed
  from d v show ?thesis unfolding routed_def by blast
qed

lemma routed_foldl: "routed frs bs \<Longrightarrow> routed (frs @ tcs) (foldl route bs tcs)"
proof (induction tcs arbitrary: frs bs)
  case Nil
  then show ?case by simp
next
  case (Cons tc tcs)
  from routed_step [OF Cons.prems] have "routed (frs @ [tc]) (route bs tc)" .
  from Cons.IH [OF this] show ?case by simp
qed

lemma routed_empty: "routed [] []"
  by (simp add: routed_def)

lemma routed_keys: "routed frs bs \<Longrightarrow> fst ` set bs = tcd_Index ` set frs"
proof -
  assume r: "routed frs bs"
  have "fst ` set bs = dom (map_of bs)" by (simp add: dom_map_of_conv_image_fst)
  also have "\<dots> = tcd_Index ` set frs"
    using r unfolding routed_def dom_def by auto
  finally show ?thesis .
qed

lemma routed_length: "routed frs bs \<Longrightarrow> length bs = card (tcd_Index ` set frs)"
proof -
  assume r: "routed frs bs"
  then have "distinct (map fst bs)" by (simp add: routed_def)
  then have "card (fst ` set bs) = length bs"
    by (metis distinct_card length_map set_map)
  with routed_keys [OF r] show ?thesis by simp
qed

subsection \<open>One chunk\<close>

lemma choices_content:
  "sr_Content (result (foldl process_choice a chs)) =
     sr_Content (result a) @ concat (map (\<lambda>ch. cd_Content (cc_Delta ch)) chs)"
  by (induction chs arbitrary: a) (simp_all add: process_choice_def Let_def)

lemma choices_reasoning:
  "sr_ReasoningContent (result (foldl process_choice a chs)) =
     sr_ReasoningContent (result a) @ concat (map (\<lambda>ch. cd_ReasoningContent (cc_Delta ch)) chs)"
  by (induction chs arbitrary: a) (simp_all add: process_choice_def Let_def)

lemma choices_builders:
  "toolCallBuilders (foldl process_choice a chs) =
     foldl route (toolCallBuilders a) (concat (map (\<lambda>ch. cd_ToolCalls (cc_Delta ch)) chs))"
  by (induction chs arbitrary: a) (simp_all add: process_choice_def Let_def)

lemma choices_rest:
  "sr_Usage (result (foldl process_choice a chs)) = sr_Usage (result a)"
  "sr_Chunks (result (foldl process_choice a chs)) = sr_Chunks (result a)"
  "sr_ToolCalls (result (foldl process_choice a chs)) = sr_ToolCalls (result a)"
  "rawChunks (foldl process_choice a chs) = rawChunks a"
  by (induction chs arbitrary: a) (simp_all add: process_choice_def Let_def)

lemma chunk_content:
  "sr_Content (result (process_chunk a c)) = sr_Content (result a) @ content_of_chunk c"
  by (simp add: process_chunk_def Let_def choices_content content_of_chunk_def split: option.split)

lemma chunk_reasoning:
  "sr_ReasoningContent (result (process_chunk a c)) =
     sr_ReasoningContent (result a) @ reasoning_of_chunk c"
  by (simp add: process_chunk_def Let_def choices_reasoning reasoning_of_chunk_def
      split: option.split)

lemma chunk_builders:
  "toolCallBuilders (process_chunk a c) = foldl route (toolCallBuilders a) (fragments_of_chunk c)"
  by (simp add: process_chunk_def Let_def choices_builders fragments_of_chunk_def
      split: option.split)

lemma chunk_usage:
  "sr_Usage (result (process_chunk a c)) =
     (case ccc_Usage c of Some u \<Rightarrow> Some u | None \<Rightarrow> sr_Usage (result a))"
  by (simp add: process_chunk_def Let_def choices_rest split: option.split)

lemma chunk_chunks:
  "sr_Chunks (result (process_chunk a c)) = sr_Chunks (result a) @ [c]"
  by (simp add: process_chunk_def Let_def choices_rest split: option.split)

lemma chunk_rest:
  "sr_ToolCalls (result (process_chunk a c)) = sr_ToolCalls (result a)"
  "rawChunks (process_chunk a c) = rawChunks a"
  by (simp_all add: process_chunk_def Let_def choices_rest split: option.split)

subsection \<open>The loop invariant\<close>

lemma last_usage_snoc:
  "last_usage (cs @ [c]) = (case ccc_Usage c of Some u \<Rightarrow> Some u | None \<Rightarrow> last_usage cs)"
  by (cases "ccc_Usage c") (simp_all add: last_usage_def Let_def)

lemma tracks_new: "tracks new_acc"
  by (simp add: tracks_def new_acc_def new_result_def last_usage_def fragments_def routed_empty)

lemma tracks_raw: "tracks a \<Longrightarrow> tracks (a\<lparr>rawChunks := r\<rparr>)"
  by (simp add: tracks_def)

lemma tracks_chunk: "tracks a \<Longrightarrow> tracks (process_chunk a c)"
  unfolding tracks_def
  by (simp add: chunk_content chunk_reasoning chunk_usage chunk_chunks chunk_rest chunk_builders
      last_usage_snoc fragments_def routed_foldl split: option.split)

lemma scan_loop_tracks: "scan_loop um lines a = Inr a' \<Longrightarrow> tracks a \<Longrightarrow> tracks a'"
proof (induction lines arbitrary: a)
  case Nil
  then show ?case by simp
next
  case (Cons line rest)
  let ?a1 = "a\<lparr>rawChunks := rawChunks a @ line @ [CHR 0x0A]\<rparr>"
  have t1: "tracks ?a1" using Cons.prems(2) by (rule tracks_raw)
  show ?case
  proof (cases "HasPrefix line ''data: ''")
    case False
    with Cons.prems(1) have "scan_loop um rest ?a1 = Inr a'" by (simp add: Let_def)
    from Cons.IH [OF this t1] show ?thesis .
  next
    case True
    show ?thesis
    proof (cases "TrimPrefix line ''data: '' = ''[DONE]''")
      case True
      with \<open>HasPrefix line ''data: ''\<close> Cons.prems(1) have "a' = ?a1" by (simp add: Let_def)
      with t1 show ?thesis by simp
    next
      case False
      with \<open>HasPrefix line ''data: ''\<close> Cons.prems(1)
      obtain chunk where u: "um (TrimPrefix line ''data: '') = Inr chunk"
        and s: "scan_loop um rest (process_chunk ?a1 chunk) = Inr a'"
        by (auto simp: Let_def split: sum.splits)
      from Cons.IH [OF s tracks_chunk [OF t1]] show ?thesis .
    qed
  qed
qed

lemma scan_loop_chunks:
  "scan_loop um lines a = Inr a' \<Longrightarrow>
     sr_Chunks (result a') = sr_Chunks (result a) @ stream_chunks um lines"
proof (induction lines arbitrary: a)
  case Nil
  then show ?case by simp
next
  case (Cons line rest)
  let ?a1 = "a\<lparr>rawChunks := rawChunks a @ line @ [CHR 0x0A]\<rparr>"
  show ?case
  proof (cases "HasPrefix line ''data: ''")
    case False
    with Cons.prems have "scan_loop um rest ?a1 = Inr a'" by (simp add: Let_def)
    from Cons.IH [OF this] False show ?thesis by simp
  next
    case True
    show ?thesis
    proof (cases "TrimPrefix line ''data: '' = ''[DONE]''")
      case True
      with \<open>HasPrefix line ''data: ''\<close> Cons.prems have "a' = ?a1" by (simp add: Let_def)
      with True \<open>HasPrefix line ''data: ''\<close> show ?thesis by simp
    next
      case False
      with \<open>HasPrefix line ''data: ''\<close> Cons.prems
      obtain chunk where u: "um (TrimPrefix line ''data: '') = Inr chunk"
        and s: "scan_loop um rest (process_chunk ?a1 chunk) = Inr a'"
        by (auto simp: Let_def split: sum.splits)
      from Cons.IH [OF s] u False \<open>HasPrefix line ''data: ''\<close> show ?thesis
        by (simp add: chunk_chunks)
    qed
  qed
qed

subsection \<open>The final walk\<close>

lemma build_loop_walk:
  "build_loop i bs out =
     out @ List.map_filter (\<lambda>j. map_option Build (map_of bs j)) [i..int (length bs) - 1]"
proof (induction i bs out rule: build_loop.induct)
  case (1 i bs out)
  show ?case
  proof (cases "i < int (length bs)")
    case True
    then have u: "[i..int (length bs) - 1] = i # [i + 1..int (length bs) - 1]"
      by (simp add: upto_rec1)
    from True "1.IH" show ?thesis
      by (subst build_loop.simps) (simp add: u split: option.split)
  next
    case False
    then show ?thesis by (subst build_loop.simps) simp
  qed
qed

lemma routed_walk:
  assumes "routed frs bs"
  shows "List.map_filter (\<lambda>j. map_option Build (map_of bs j)) [0..int (length bs) - 1] =
         map (\<lambda>p. Build (builder_for frs p)) (emitted_positions frs)"
proof -
  have m: "map_of bs p = (if p \<in> tcd_Index ` set frs then Some (builder_for frs p) else None)"
    for p using assms unfolding routed_def by blast
  have l: "length bs = length (remdups (map tcd_Index frs))"
    using routed_length [OF assms] by (metis card_set set_map)
  show ?thesis
    unfolding emitted_positions_def map_filter_def l
    by (rule trans [OF _ map_cong [OF refl]], rule arg_cong [where f = "map _"],
        rule filter_cong [OF refl]) (auto simp: m)
qed

subsection \<open>Sticky fields\<close>

lemma last_non_empty_snoc:
  "last_non_empty (xs @ [x]) = (if x \<noteq> [] then x else last_non_empty xs)"
  by (simp add: last_non_empty_def Let_def)

lemma sticky_snoc: "sticky old (xs @ [x]) = (if x \<noteq> [] then x else sticky old xs)"
  by (simp add: sticky_def last_non_empty_def Let_def)

lemma Accumulate_fields:
  "b_id (Accumulate b d) = (if tcd_ID d \<noteq> [] then tcd_ID d else b_id b)"
  "b_typ (Accumulate b d) = (if tcd_Type d \<noteq> [] then tcd_Type d else b_typ b)"
  "b_name (Accumulate b d) =
     (if tcfd_Name (tcd_Function d) \<noteq> [] then tcfd_Name (tcd_Function d) else b_name b)"
  "b_arguments (Accumulate b d) = b_arguments b @ tcfd_Arguments (tcd_Function d)"
  by (simp_all add: Accumulate_def Let_def)

lemma foldl_Accumulate_fields:
  "b_id (foldl Accumulate b ds) = sticky (b_id b) (map tcd_ID ds)"
  "b_typ (foldl Accumulate b ds) = sticky (b_typ b) (map tcd_Type ds)"
  "b_name (foldl Accumulate b ds) = sticky (b_name b) (map (\<lambda>d. tcfd_Name (tcd_Function d)) ds)"
  "b_arguments (foldl Accumulate b ds) =
     b_arguments b @ concat (map (\<lambda>d. tcfd_Arguments (tcd_Function d)) ds)"
  by (induction ds rule: rev_induct) (simp_all add: Accumulate_fields sticky_snoc, simp_all add: sticky_def)

lemma sticky_empty: "sticky [] xs = last_non_empty xs"
  by (simp add: sticky_def last_non_empty_def)

lemma builder_for_Build:
  "Build (builder_for frs p) =
     (let ds = filter (\<lambda>d. tcd_Index d = p) frs in
      \<lparr>tc_ID = last_non_empty (map tcd_ID ds),
       tc_Type = last_non_empty (map tcd_Type ds),
       tc_Function =
         \<lparr>tcf_Name = last_non_empty (map (\<lambda>d. tcfd_Name (tcd_Function d)) ds),
          tcf_Arguments = concat (map (\<lambda>d. tcfd_Arguments (tcd_Function d)) ds)\<rparr>\<rparr>)"
  by (simp add: Build_def builder_for_def Let_def foldl_Accumulate_fields sticky_empty
      new_builder_def)

subsection \<open>The claims about the reconstructor\<close>

lemma parse_ok:
  assumes "fst (parseSSEStream um lines scan_err) = Some r"
  obtains a where "scan_loop um lines new_acc = Inr a" and "scan_err = None"
    and "r = (result a)\<lparr>sr_ToolCalls := build_loop 0 (toolCallBuilders a) (sr_ToolCalls (result a))\<rparr>"
  using assms by (auto simp: parseSSEStream_def split: sum.splits option.splits)

lemma parse_ok_state:
  assumes "scan_loop um lines new_acc = Inr a"
  shows "tracks a" and "sr_Chunks (result a) = stream_chunks um lines"
  using scan_loop_tracks [OF assms tracks_new] scan_loop_chunks [OF assms]
  by (simp_all add: new_acc_def new_result_def)

text \<open>
  C1. When \<open>parseSSEStream\<close> returns a result (the stream ended with the sentinel or ran
  out of lines), its tool calls are the builders of the positions \<open>0, 1, ...\<close> below the
  number of distinct positions seen, in ascending order, one for each such position at which a
  fragment was seen. A position at or above that number (or below 0) is not emitted.
\<close>

theorem finalize_walks_positions_below_count:
  assumes "fst (parseSSEStream um lines scan_err) = Some r"
  shows "sr_ToolCalls r =
           map (\<lambda>p. Build (builder_for (fragments (stream_chunks um lines)) p))
             (emitted_positions (fragments (stream_chunks um lines))) \<and>
         sorted_wrt (<) (emitted_positions (fragments (stream_chunks um lines))) \<and>
         set (emitted_positions (fragments (stream_chunks um lines))) =
           {p. p \<in> set (map tcd_Index (fragments (stream_chunks um lines))) \<and> 0 \<le> p \<and>
               p < int (length (remdups (map tcd_Index (fragments (stream_chunks um lines)))))}"
proof -
  let ?frs = "fragments (stream_chunks um lines)"
  from assms obtain a where s: "scan_loop um lines new_acc = Inr a"
    and r: "r = (result a)\<lparr>sr_ToolCalls :=
                  build_loop 0 (toolCallBuilders a) (sr_ToolCalls (result a))\<rparr>"
    by (rule parse_ok)
  from parse_ok_state [OF s] have rt: "routed ?frs (toolCallBuilders a)"
    and e: "sr_ToolCalls (result a) = []"
    by (simp_all add: tracks_def)
  have "sr_ToolCalls r = map (\<lambda>p. Build (builder_for ?frs p)) (emitted_positions ?frs)"
    by (simp add: r e build_loop_walk routed_walk [OF rt])
  moreover have "sorted_wrt (<) (emitted_positions ?frs)"
    unfolding emitted_positions_def by (rule sorted_wrt_filter) simp
  moreover have "set (emitted_positions ?frs) =
      {p. p \<in> set (map tcd_Index ?frs) \<and> 0 \<le> p \<and> p < int (length (remdups (map tcd_Index ?frs)))}"
    unfolding emitted_positions_def by auto
  ultimately show ?thesis by blast
qed

text \<open>
  C7. The usage of a returned result is the snapshot of the last delivered chunk that carried
  one, whole, and is absent if no chunk carried one.
\<close>

theorem usage_last_wins:
  assumes "fst (parseSSEStream um lines scan_err) = Some r"
  shows "sr_Usage r = last_usage (stream_chunks um lines)"
proof -
  from assms obtain a where s: "scan_loop um lines new_acc = Inr a"
    and r: "r = (result a)\<lparr>sr_ToolCalls :=
                  build_loop 0 (toolCallBuilders a) (sr_ToolCalls (result a))\<rparr>"
    by (rule parse_ok)
  from parse_ok_state [OF s] have "sr_Usage (result a) = last_usage (stream_chunks um lines)"
    by (simp add: tracks_def)
  with r show ?thesis by simp
qed

text \<open>
  C2. After routing any sequence of fragments, the tool call built at a position seen has as
  id, type and name the most recent non-empty value among the fragments of that position, and
  as arguments the concatenation of their argument pieces in arrival order.
\<close>

theorem sticky_fields_last_non_empty:
  assumes "p \<in> tcd_Index ` set frs"
  shows "\<exists>b. map_of (foldl route [] frs) p = Some b \<and>
           Build b =
             \<lparr>tc_ID = last_non_empty (map tcd_ID (filter (\<lambda>d. tcd_Index d = p) frs)),
              tc_Type = last_non_empty (map tcd_Type (filter (\<lambda>d. tcd_Index d = p) frs)),
              tc_Function =
                \<lparr>tcf_Name = last_non_empty
                    (map (\<lambda>d. tcfd_Name (tcd_Function d)) (filter (\<lambda>d. tcd_Index d = p) frs)),
                 tcf_Arguments = concat
                    (map (\<lambda>d. tcfd_Arguments (tcd_Function d))
                       (filter (\<lambda>d. tcd_Index d = p) frs))\<rparr>\<rparr>"
proof -
  from routed_foldl [OF routed_empty, of frs] have "routed frs (foldl route [] frs)" by simp
  with assms have "map_of (foldl route [] frs) p = Some (builder_for frs p)"
    unfolding routed_def by simp
  then show ?thesis by (simp add: builder_for_Build Let_def)
qed


lemma scan_loop_passes:
  "\<forall>l \<in> set pre. passes um l \<Longrightarrow>
     \<exists>a'. scan_loop um (pre @ rest) a = scan_loop um rest a' \<and>
          rawChunks a' = rawChunks a @ frames pre"
proof (induction pre arbitrary: a)
  case Nil
  show ?case by (rule exI [of _ a]) (simp add: frames_def)
next
  case (Cons line pre)
  let ?a1 = "a\<lparr>rawChunks := rawChunks a @ line @ [CHR 0x0A]\<rparr>"
  from Cons.prems have p: "passes um line" and ps: "\<forall>l \<in> set pre. passes um l" by simp_all
  show ?case
  proof (cases "HasPrefix line ''data: ''")
    case False
    from Cons.IH [OF ps, of ?a1] obtain a' where
      "scan_loop um (pre @ rest) ?a1 = scan_loop um rest a'"
      "rawChunks a' = rawChunks ?a1 @ frames pre" by blast
    with False show ?thesis by (intro exI [of _ a']) (simp add: frames_def)
  next
    case True
    with p obtain chunk where nd: "TrimPrefix line ''data: '' \<noteq> ''[DONE]''"
      and u: "um (TrimPrefix line ''data: '') = Inr chunk"
      by (auto simp: passes_def split: sum.splits)
    from Cons.IH [OF ps, of "process_chunk ?a1 chunk"] obtain a' where
      "scan_loop um (pre @ rest) (process_chunk ?a1 chunk) = scan_loop um rest a'"
      "rawChunks a' = rawChunks (process_chunk ?a1 chunk) @ frames pre" by blast
    with True nd u show ?thesis
      by (intro exI [of _ a']) (simp add: frames_def chunk_rest)
  qed
qed

text \<open>
  C3. An error is never returned together with a result. If the lines before a data line are
  all passed and that data line is not the sentinel and does not decode, \<open>parseSSEStream\<close>
  returns no result, the raw frames up to and including that line, and the decoding error.
\<close>

theorem malformed_frame_is_fatal:
  "(\<forall>res raw e. parseSSEStream um lines scan_err = (res, raw, Some e) \<longrightarrow> res = None) \<and>
   ((\<forall>l \<in> set pre. passes um l) \<and> HasPrefix line ''data: '' \<and>
    TrimPrefix line ''data: '' \<noteq> ''[DONE]'' \<and> um (TrimPrefix line ''data: '') = Inl err \<longrightarrow>
    parseSSEStream um (pre @ line # post) scan_err =
      (None, frames (pre @ [line]), Some (UnmarshalChunk err)))"
proof
  show "\<forall>res raw e. parseSSEStream um lines scan_err = (res, raw, Some e) \<longrightarrow> res = None"
    by (auto simp: parseSSEStream_def split: sum.splits option.splits)
next
  show "(\<forall>l \<in> set pre. passes um l) \<and> HasPrefix line ''data: '' \<and>
    TrimPrefix line ''data: '' \<noteq> ''[DONE]'' \<and> um (TrimPrefix line ''data: '') = Inl err \<longrightarrow>
    parseSSEStream um (pre @ line # post) scan_err =
      (None, frames (pre @ [line]), Some (UnmarshalChunk err))"
  proof
    assume h: "(\<forall>l \<in> set pre. passes um l) \<and> HasPrefix line ''data: '' \<and>
      TrimPrefix line ''data: '' \<noteq> ''[DONE]'' \<and> um (TrimPrefix line ''data: '') = Inl err"
    then have ps: "\<forall>l \<in> set pre. passes um l" by blast
    from scan_loop_passes [OF ps, of "line # post" new_acc]
    obtain a' where s: "scan_loop um (pre @ line # post) new_acc = scan_loop um (line # post) a'"
      and raw: "rawChunks a' = frames pre"
      by (auto simp: new_acc_def)
    from h have "scan_loop um (line # post) a' = Inl (rawChunks a' @ line @ [CHR 0x0A], err)"
      by (simp add: Let_def)
    with s raw show "parseSSEStream um (pre @ line # post) scan_err =
        (None, frames (pre @ [line]), Some (UnmarshalChunk err))"
      by (simp add: parseSSEStream_def frames_def)
  qed
qed

subsection \<open>The claims at the example streams\<close>

lemmas demo_defs = demo_lines_def demo_unmarshal_def demo_chunk_a_def demo_chunk_b_def
  demo_chunk_c_def chunk_of_def choice_of_def frag_def usage_of_def demo_result_def demo_call_def
  demo_frags_def

lemmas parse_defs = parseSSEStream_def HasPrefix_def TrimPrefix_def new_acc_def new_result_def
  process_chunk_def process_choice_def route_def Accumulate_def new_builder_def Build_def
  build_loop.simps Let_def

lemma demo_parse: "fst (parseSSEStream demo_unmarshal demo_lines None) = Some demo_result"
  by (simp add: parse_defs demo_defs)

lemma demo_stream_chunks:
  "stream_chunks demo_unmarshal demo_lines = [demo_chunk_a, demo_chunk_b, demo_chunk_c]"
  by (simp add: demo_lines_def demo_unmarshal_def HasPrefix_def TrimPrefix_def)

text \<open>C1 at a stream with positions 0 and 2: two distinct positions, so only position 0 is emitted.\<close>

theorem finalize_walks_positions_below_count_witness:
  "fst (parseSSEStream demo_unmarshal demo_lines None) = Some demo_result \<and>
   map tcd_Index (fragments (stream_chunks demo_unmarshal demo_lines)) = [0, 0, 2, 0] \<and>
   emitted_positions (fragments (stream_chunks demo_unmarshal demo_lines)) = [0] \<and>
   sr_ToolCalls demo_result = [demo_call]"
proof -
  have e: "emitted_positions (fragments [demo_chunk_a, demo_chunk_b, demo_chunk_c]) = [0]"
    by code_simp
  show ?thesis
    using finalize_walks_positions_below_count [OF demo_parse]
    by (simp add: demo_parse demo_stream_chunks e)
      (simp add: fragments_def fragments_of_chunk_def demo_defs)
qed

text \<open>C7 at a stream whose first and third chunk carry a usage snapshot.\<close>

theorem usage_last_wins_witness:
  "fst (parseSSEStream demo_unmarshal demo_lines None) = Some demo_result \<and>
   map ccc_Usage (stream_chunks demo_unmarshal demo_lines) =
     [Some (usage_of 7 1), None, Some (usage_of 7 9)] \<and>
   sr_Usage demo_result = Some (usage_of 7 9)"
proof -
  have u: "last_usage [demo_chunk_a, demo_chunk_b, demo_chunk_c] = Some (usage_of 7 9)"
    by (simp add: last_usage_def demo_chunk_a_def demo_chunk_b_def demo_chunk_c_def chunk_of_def)
  have m: "map ccc_Usage [demo_chunk_a, demo_chunk_b, demo_chunk_c] =
      [Some (usage_of 7 1), None, Some (usage_of 7 9)]"
    by (simp add: demo_chunk_a_def demo_chunk_b_def demo_chunk_c_def chunk_of_def)
  from usage_last_wins [OF demo_parse] have "sr_Usage demo_result = Some (usage_of 7 9)"
    by (simp only: demo_stream_chunks u)
  with demo_parse m show ?thesis by (simp only: demo_stream_chunks simp_thms)
qed

lemma demo_frags_zero: "0 \<in> tcd_Index ` set demo_frags"
  by (simp add: demo_defs)

text \<open>C2 at four fragments, three of them for position 0.\<close>

theorem sticky_fields_last_non_empty_witness:
  "0 \<in> tcd_Index ` set demo_frags \<and>
   (\<exists>b. map_of (foldl route [] demo_frags) 0 = Some b \<and> Build b = demo_call)"
  using sticky_fields_last_non_empty [OF demo_frags_zero]
  by (simp add: demo_frags_zero last_non_empty_def demo_defs)

lemma demo_passes: "\<forall>l \<in> set [''data: A'', ''x'']. passes demo_unmarshal l"
  by (simp add: passes_def demo_unmarshal_def HasPrefix_def TrimPrefix_def)

text \<open>C3 at a stream whose third line does not decode.\<close>

theorem malformed_frame_is_fatal_witness:
  "parseSSEStream demo_unmarshal [''data: A'', ''x'', ''data: {'', ''data: B''] None =
     (None, ''data: A'' @ [CHR 0x0A] @ ''x'' @ [CHR 0x0A] @ ''data: {'' @ [CHR 0x0A],
      Some (UnmarshalChunk ''invalid character''))"
  using malformed_frame_is_fatal [of demo_unmarshal "[]" None "[''data: A'', ''x'']"
      "''data: {''" "''invalid character''" "[''data: B'']"] demo_passes
  by (simp add: frames_def demo_unmarshal_def HasPrefix_def TrimPrefix_def)


section \<open>Properties of the orchestrator\<close>

subsection \<open>Selection\<close>

lemma filter_evals_filter:
  "filter_evals cfg evals =
     filter (\<lambda>e. other_filters cfg e \<and> ClassMatches (eval_Class e) (cfg_Class cfg)) evals"
  by (induction evals) (auto simp: other_filters_def)

lemma ClassMatches_rank:
  "evalClass \<in> set AllClasses \<Longrightarrow> requestedClass \<in> set AllClasses \<Longrightarrow>
     ClassMatches evalClass requestedClass \<longleftrightarrow> tier_rank evalClass \<le> tier_rank requestedClass"
  by (auto simp: ClassMatches_def tier_rank_def AllClasses_def ClassStandard_def
      ClassReasoning_def ClassInterleaved_def)

lemma ClassMatches_none: "ClassMatches evalClass []"
  by (simp add: ClassMatches_def)

text \<open>
  C6. On the three classes, \<open>ClassMatches\<close> holds exactly when the class of the eval is at
  or below the requested class in the order standard, reasoning, interleaved, and it holds
  for every class when no class is requested. So \<open>Run\<close> selects, among the evals that pass
  its other two filters, exactly those at or below the requested class, and all of them when
  no class is requested.
\<close>

theorem tier_selection_is_inclusive:
  "(evalClass \<in> set AllClasses \<and> requestedClass \<in> set AllClasses \<longrightarrow>
      ClassMatches evalClass requestedClass = (tier_rank evalClass \<le> tier_rank requestedClass)) \<and>
   ClassMatches evalClass [] \<and>
   ((\<forall>e \<in> set evals. eval_Class e \<in> set AllClasses) \<and> cfg_Class cfg \<in> set AllClasses \<longrightarrow>
      filter_evals cfg evals =
        filter (\<lambda>e. other_filters cfg e \<and> tier_rank (eval_Class e) \<le> tier_rank (cfg_Class cfg))
          evals) \<and>
   (cfg_Class cfg = [] \<longrightarrow> filter_evals cfg evals = filter (other_filters cfg) evals)"
proof (intro conjI impI)
  assume "evalClass \<in> set AllClasses \<and> requestedClass \<in> set AllClasses"
  then show "ClassMatches evalClass requestedClass = (tier_rank evalClass \<le> tier_rank requestedClass)"
    by (simp add: ClassMatches_rank)
next
  show "ClassMatches evalClass []" by (rule ClassMatches_none)
next
  assume h: "(\<forall>e \<in> set evals. eval_Class e \<in> set AllClasses) \<and> cfg_Class cfg \<in> set AllClasses"
  show "filter_evals cfg evals =
      filter (\<lambda>e. other_filters cfg e \<and> tier_rank (eval_Class e) \<le> tier_rank (cfg_Class cfg)) evals"
    unfolding filter_evals_filter
    by (rule filter_cong [OF refl]) (use h in \<open>simp add: ClassMatches_rank\<close>)
next
  assume "cfg_Class cfg = []"
  then show "filter_evals cfg evals = filter (other_filters cfg) evals"
    by (simp add: filter_evals_filter ClassMatches_none)
qed

subsection \<open>Running one eval, and the sequential loop\<close>

lemma prepare_eval_eq:
  "prepare_eval w e s =
     (with_logger w (\<lambda>l. StartEval l (eval_Name e @ mode_suffix s)),
      if mode_switching e then SetStreaming e s else e,
      eval_Name e @ mode_suffix s)"
  by (cases s) (simp_all add: prepare_eval_def Let_def mode_suffix_def SetStreaming_def)

lemma execute_eval_result:
  "snd (execute_eval rn w e name) =
     (body_result rn w e)\<lparr>Duration := eval_elapsed e (streaming e) w, Name := name,
        Category := eval_Category e\<rparr>"
  by (simp add: execute_eval_def body_result_def Let_def case_prod_beta)

lemma execute_eval_label: "label (snd (execute_eval rn w e name)) = (name, eval_Category e)"
  by (simp add: execute_eval_result label_def)

lemma runSingleEval_eval:
  "fst (snd (runSingleEval rn w e s)) = (if mode_switching e then SetStreaming e s else e)"
  by (simp add: runSingleEval_def prepare_eval_eq case_prod_beta)

lemma runSingleEval_result:
  "snd (snd (runSingleEval rn w e s)) =
     (let e1 = (if mode_switching e then SetStreaming e s else e);
          w1 = with_logger w (\<lambda>l. StartEval l (eval_Name e @ mode_suffix s)) in
      (body_result rn w1 e1)\<lparr>Duration := eval_elapsed e1 (streaming e1) w1,
         Name := eval_Name e @ mode_suffix s, Category := eval_Category e\<rparr>)"
  by (simp add: runSingleEval_def prepare_eval_eq case_prod_beta execute_eval_result
      SetStreaming_def Let_def)

lemma runSingleEval_label: "label (snd (snd (runSingleEval rn w e s))) = job_label e s"
  by (simp add: runSingleEval_result label_def job_label_def Let_def)

lemma runSingleEval_keeps:
  "eval_Name (fst (snd (runSingleEval rn w e s))) = eval_Name e"
  "eval_Category (fst (snd (runSingleEval rn w e s))) = eval_Category e"
  "mode_switching (fst (snd (runSingleEval rn w e s))) = mode_switching e"
  by (simp_all add: runSingleEval_eval SetStreaming_def)

lemma job_label_keeps:
  "eval_Name e' = eval_Name e \<Longrightarrow> eval_Category e' = eval_Category e \<Longrightarrow>
     job_label e' s = job_label e s"
  by (simp add: job_label_def)

lemma runEvalInModes_results:
  "snd (snd (runEvalInModes rn cfg w e)) =
     (let mode = (if cfg_Mode cfg = [] then ModeBoth else cfg_Mode cfg);
          first = runSingleEval rn w e False
      in if mode = ModeBlocking then [snd (snd first)]
         else if mode = ModeStreaming then [snd (snd (runSingleEval rn w e True))]
         else if mode = ModeBoth
           then [snd (snd first), snd (snd (runSingleEval rn (fst first) (fst (snd first)) True))]
         else [])"
  by (simp add: runEvalInModes_def Let_def case_prod_beta)

lemma modes_selected_eq:
  "modes_selected m =
     (let mode = (if m = [] then ModeBoth else m)
      in if mode = ModeBlocking then [False]
         else if mode = ModeStreaming then [True]
         else if mode = ModeBoth then [False, True]
         else [])"
  by (simp add: modes_selected_def Let_def ModeBlocking_def ModeStreaming_def ModeBoth_def)

lemma job_label_after:
  "job_label (fst (snd (runSingleEval rn w e s))) s' = job_label e s'"
  by (rule job_label_keeps) (simp_all add: runSingleEval_keeps)

lemma runEvalInModes_labels:
  "map label (snd (snd (runEvalInModes rn cfg w e))) = map (job_label e) (modes_selected (cfg_Mode cfg))"
  unfolding runEvalInModes_results modes_selected_eq
  by (simp add: Let_def runSingleEval_label job_label_after)

lemma runSequential_labels:
  "map label (snd (runSequential rn cfg w evals results)) =
     map label results @ expected_labels cfg evals"
proof (induction evals arbitrary: w results)
  case Nil
  then show ?case by (simp add: expected_labels_def)
next
  case (Cons e es)
  obtain w1 e1 rs where r: "runEvalInModes rn cfg w e = (w1, e1, rs)"
    by (cases "runEvalInModes rn cfg w e") auto
  with runEvalInModes_labels [of rn cfg w e]
  have "map label rs = map (job_label e) (modes_selected (cfg_Mode cfg))" by simp
  with r Cons.IH [of w1 "results @ rs"] show ?case
    by (simp add: expected_labels_def)
qed

subsection \<open>The worker pool: invariant, conservation of jobs, termination\<close>

lemma sum_list_update_add:
  fixes f :: "'a \<Rightarrow> 'b::comm_monoid_add"
  shows "w < length ws \<Longrightarrow>
     sum_list (map f (ws[w := x])) + f (ws ! w) = sum_list (map f ws) + f x"
proof (induction ws arbitrary: w)
  case Nil
  then show ?case by simp
next
  case (Cons a ws)
  show ?case
  proof (cases w)
    case 0
    then show ?thesis by (simp add: add.commute add.left_commute)
  next
    case (Suc v)
    with Cons.prems have "v < length ws" by simp
    from Cons.IH [OF this] Suc show ?thesis by (simp add: add.assoc)
  qed
qed

lemma wf_length: "pool_wf evals s \<Longrightarrow> length (p_store s) = length evals"
  unfolding pool_wf_def by (metis length_map)

lemma wf_name: "pool_wf evals s \<Longrightarrow> i < length evals \<Longrightarrow> eval_Name (p_store s ! i) = eval_Name (evals ! i)"
  unfolding pool_wf_def by (metis length_map nth_map)

lemma wf_category:
  "pool_wf evals s \<Longrightarrow> i < length evals \<Longrightarrow> eval_Category (p_store s ! i) = eval_Category (evals ! i)"
  unfolding pool_wf_def by (metis length_map nth_map)

lemma list_all_update: "list_all P ws \<Longrightarrow> P x \<Longrightarrow> list_all P (ws[w := x]) = True"
  by (induction ws arbitrary: w) (auto split: nat.split)

lemma list_all_nth: "list_all P ws \<Longrightarrow> w < length ws \<Longrightarrow> P (ws ! w)"
  by (simp add: list_all_length)

lemma not_Exited_update:
  "Exited \<notin> set ws \<Longrightarrow> x \<noteq> Exited \<Longrightarrow> (Exited \<in> set (ws[w := x])) = False"
  by (induction ws arbitrary: w) (auto split: nat.split)

lemma map_update_same: "i < length xs \<Longrightarrow> f y = f (xs ! i) \<Longrightarrow> map f (xs[i := y]) = map f xs"
  by (simp add: map_update list_update_same_conv)

lemma pool_step_wf:
  assumes "pool_step rn s s'" and "pool_wf evals s"
  shows "pool_wf evals s'"
  using assms
proof (cases rule: pool_step.cases)
  case (Receive w job rest)
  with assms(2) show ?thesis
    by (auto simp: pool_wf_def in_range_def list_all_update not_Exited_update)
next
  case (Prepare w job w1 e name)
  from Prepare(5) have e: "e = (if mode_switching (p_store s ! job_eval job)
      then SetStreaming (p_store s ! job_eval job) (job_streaming job)
      else p_store s ! job_eval job)"
    by (simp add: prepare_eval_eq)
  have n: "eval_Name e = eval_Name (p_store s ! job_eval job)"
    and c: "eval_Category e = eval_Category (p_store s ! job_eval job)"
    by (simp_all add: e SetStreaming_def)
  from assms(2) Prepare(2,3) have r: "in_range (length evals) (Received job)"
    by (auto simp: pool_wf_def dest: list_all_nth)
  then have r': "in_range (length evals) (Prepared (job_eval job) name)"
    by (simp add: in_range_def)
  from assms(2) Prepare(1,4) r' n c show ?thesis
    unfolding Prepare(1) pool_wf_def
    by (auto simp: map_update_same list_all_update not_Exited_update)
next
  case (Execute w i name w1 res)
  with assms(2) show ?thesis
    by (auto simp: pool_wf_def in_range_def list_all_update not_Exited_update)
next
  case (Deliver w res)
  with assms(2) show ?thesis
    by (auto simp: pool_wf_def in_range_def list_all_update not_Exited_update)
next
  case (Leave w)
  with assms(2) show ?thesis
    by (auto simp: pool_wf_def in_range_def list_all_update)
qed

lemma pool_step_measure:
  assumes "pool_step rn s s'"
  shows "pool_measure s' < pool_measure s"
  using assms
proof (cases rule: pool_step.cases)
  case (Receive w job rest)
  from sum_list_update_add [OF Receive(2), of weight "Received job"] Receive show ?thesis
    by (simp add: pool_measure_def weight_def)
next
  case (Prepare w job w1 e name)
  from sum_list_update_add [OF Prepare(2), of weight "Prepared (job_eval job) name"] Prepare
  show ?thesis by (simp add: pool_measure_def weight_def)
next
  case (Execute w i name w1 res)
  from sum_list_update_add [OF Execute(2), of weight "Sending res"] Execute
  show ?thesis by (simp add: pool_measure_def weight_def)
next
  case (Deliver w res)
  from sum_list_update_add [OF Deliver(2), of weight Idle] Deliver
  show ?thesis by (simp add: pool_measure_def weight_def)
next
  case (Leave w)
  from sum_list_update_add [OF Leave(2), of weight Exited] Leave
  show ?thesis by (simp add: pool_measure_def weight_def)
qed

lemma pool_step_accounted:
  assumes "pool_step rn s s'" and "pool_wf evals s"
  shows "accounted evals s' = accounted evals s"
  using assms(1)
proof (cases rule: pool_step.cases)
  case (Receive w job rest)
  from sum_list_update_add [OF Receive(2), of "pending evals" "Received job"] Receive
  show ?thesis by (simp add: accounted_def pending_def)
next
  case (Prepare w job w1 e name)
  from assms(2) Prepare(2,3) have r: "job_eval job < length evals"
    by (auto simp: pool_wf_def in_range_def dest: list_all_nth)
  from Prepare(5) have "name = eval_Name (p_store s ! job_eval job) @ mode_suffix (job_streaming job)"
    by (simp add: prepare_eval_eq)
  with wf_name [OF assms(2) r]
  have "pending evals (Prepared (job_eval job) name) = pending evals (Received job)"
    by (simp add: pending_def job_label_in_def job_label_def)
  with sum_list_update_add [OF Prepare(2), of "pending evals" "Prepared (job_eval job) name"]
    Prepare(1,3)
  show ?thesis by (simp add: accounted_def)
next
  case (Execute w i name w1 res)
  from assms(2) Execute(2,3) have r: "i < length evals"
    by (auto simp: pool_wf_def in_range_def dest: list_all_nth)
  from Execute(5) have "label res = (name, eval_Category (p_store s ! i))"
    by (metis execute_eval_label snd_conv)
  with wf_category [OF assms(2) r]
  have "pending evals (Sending res) = pending evals (Prepared i name)"
    by (simp add: pending_def)
  with sum_list_update_add [OF Execute(2), of "pending evals" "Sending res"] Execute(1,3)
  show ?thesis by (simp add: accounted_def)
next
  case (Deliver w res)
  from sum_list_update_add [OF Deliver(2), of "pending evals" Idle] Deliver
  show ?thesis by (simp add: accounted_def pending_def)
next
  case (Leave w)
  from sum_list_update_add [OF Leave(2), of "pending evals" Exited] Leave
  show ?thesis by (simp add: accounted_def pending_def)
qed

lemma pool_steps_wf_accounted:
  "(pool_step rn)\<^sup>*\<^sup>* s s' \<Longrightarrow> pool_wf evals s \<Longrightarrow>
     pool_wf evals s' \<and> accounted evals s' = accounted evals s"
proof (induction rule: rtranclp_induct)
  case base
  then show ?case by simp
next
  case (step t u)
  then have "pool_wf evals t" and "accounted evals t = accounted evals s" by simp_all
  with step.hyps(2) show ?case
    by (simp add: pool_step_wf pool_step_accounted)
qed

lemma worker_can_step:
  assumes "pool_wf evals s" and "w < length (p_workers s)" and "p_workers s ! w \<noteq> Exited"
  shows "\<exists>s'. pool_step rn s s'"
proof (cases "p_workers s ! w")
  case Idle
  show ?thesis
  proof (cases "p_queue s")
    case Nil
    from pool_step.Leave [OF assms(2) Idle Nil] show ?thesis by blast
  next
    case (Cons job rest)
    from pool_step.Receive [OF assms(2) Idle Cons] show ?thesis by blast
  qed
next
  case (Received job)
  from assms(1,2) Received have "job_eval job < length evals"
    by (auto simp: pool_wf_def in_range_def dest: list_all_nth)
  then have r: "job_eval job < length (p_store s)" by (simp add: wf_length [OF assms(1)])
  obtain w1 e name where
    "prepare_eval (p_world s) (p_store s ! job_eval job) (job_streaming job) = (w1, e, name)"
    by (metis prod_cases3)
  from pool_step.Prepare [OF assms(2) Received r this] show ?thesis by blast
next
  case (Prepared i name)
  from assms(1,2) Prepared have "i < length evals"
    by (auto simp: pool_wf_def in_range_def dest: list_all_nth)
  then have r: "i < length (p_store s)" by (simp add: wf_length [OF assms(1)])
  obtain w1 res where "execute_eval rn (p_world s) (p_store s ! i) name = (w1, res)"
    by (metis surj_pair)
  from pool_step.Execute [OF assms(2) Prepared r this] show ?thesis by blast
next
  case (Sending res)
  from pool_step.Deliver [OF assms(2) Sending] show ?thesis by blast
next
  case Exited
  with assms(3) show ?thesis by simp
qed

lemma pool_progress:
  assumes "pool_wf evals s" and "\<not> pool_done s"
  shows "\<exists>s'. pool_step rn s s'"
proof (cases "p_queue s = []")
  case True
  with assms(2) have "\<not> list_all (\<lambda>w. w = Exited) (p_workers s)" by (simp add: pool_done_def)
  then obtain w where "w < length (p_workers s)" and "p_workers s ! w \<noteq> Exited"
    by (auto simp: list_all_length)
  with assms(1) show ?thesis by (auto intro: worker_can_step)
next
  case False
  with assms(1) have "p_workers s \<noteq> []" and "Exited \<notin> set (p_workers s)"
    by (simp_all add: pool_wf_def)
  then have "0 < length (p_workers s)" and "p_workers s ! 0 \<noteq> Exited"
    by (auto simp: in_set_conv_nth) 
  with assms(1) show ?thesis by (auto intro: worker_can_step)
qed

lemma pool_terminates:
  "pool_wf evals s \<Longrightarrow> \<exists>s'. (pool_step rn)\<^sup>*\<^sup>* s s' \<and> pool_done s'"
proof (induction s rule: measure_induct_rule [where f = pool_measure])
  case (less s)
  show ?case
  proof (cases "pool_done s")
    case True
    then show ?thesis by blast
  next
    case False
    from pool_progress [OF less.prems False] obtain t where t: "pool_step rn s t" by blast
    from pool_step_measure [OF t] pool_step_wf [OF t less.prems] less.IH
    obtain s' where "(pool_step rn)\<^sup>*\<^sup>* t s'" and "pool_done s'" by blast
    with t show ?thesis by (meson converse_rtranclp_into_rtranclp)
  qed
qed

lemma pool_every_run_ends: "wf {(s', s). pool_step rn s s'}"
  by (rule wf_subset [OF wf_measure [of pool_measure]]) (auto simp: pool_step_measure)

subsection \<open>Every run of the pool accounts for every job\<close>

lemma jobs_from_labels_mode:
  "i + n \<le> length evals \<Longrightarrow>
     map (job_label_in evals) (jobs_from mode i n) =
     concat (map (\<lambda>e. map (job_label e)
        (if mode = ModeBlocking then [False] else if mode = ModeStreaming then [True]
         else if mode = ModeBoth then [False, True] else [])) (take n (drop i evals)))"
proof (induction n arbitrary: i)
  case 0
  then show ?case by simp
next
  case (Suc n)
  then have i: "i < length evals" and r: "Suc i + n \<le> length evals" by simp_all
  from i have t: "take (Suc n) (drop i evals) = evals ! i # take n (drop (Suc i) evals)"
    by (simp add: Cons_nth_drop_Suc [symmetric])
  have d: "ModeStreaming \<noteq> ModeBlocking" "ModeBoth \<noteq> ModeBlocking"
    "ModeBoth \<noteq> ModeStreaming"
    by (simp_all add: ModeBoth_def ModeBlocking_def ModeStreaming_def)
  consider "mode = ModeBlocking" | "mode = ModeStreaming" | "mode = ModeBoth"
    | "mode \<noteq> ModeBlocking" "mode \<noteq> ModeStreaming" "mode \<noteq> ModeBoth"
    by blast
  then show ?case
  proof cases
    case 1
    with Suc.IH [OF r] show ?thesis by (simp add: t job_label_in_def)
  next
    case 2
    with Suc.IH [OF r] show ?thesis by (simp add: t d job_label_in_def)
  next
    case 3
    with Suc.IH [OF r] show ?thesis by (simp add: t d job_label_in_def)
  next
    case 4
    with Suc.IH [OF r] show ?thesis by (simp add: t job_label_in_def)
  qed
qed

lemma jobs_from_labels:
  "i + n \<le> length evals \<Longrightarrow>
     map (job_label_in evals) (jobs_from (if m = [] then ModeBoth else m) i n) =
     concat (map (\<lambda>e. map (job_label e) (modes_selected m)) (take n (drop i evals)))"
  unfolding modes_selected_eq Let_def by (rule jobs_from_labels_mode)

lemma jobs_from_range:
  "list_all (\<lambda>job. job_eval job < i + n) (jobs_from mode i n)"
proof (induction n arbitrary: i)
  case 0
  then show ?case by simp
next
  case (Suc n)
  from Suc.IH [of "Suc i"] show ?case by simp
qed

lemma pool_init_wf: "1 < cfg_Jobs cfg \<Longrightarrow> pool_wf evals (pool_init cfg evals)"
  using jobs_from_range [of 0 "length evals"]
  by (simp add: pool_wf_def pool_init_def list_all_iff in_range_def)

lemma pool_init_accounted:
  "accounted evals (pool_init cfg evals) = mset (expected_labels cfg evals)"
proof -
  have "sum_list (map (pending evals) (replicate k Idle)) = {#}" for k
    by (induction k) (simp_all add: pending_def)
  then show ?thesis
    using jobs_from_labels [of 0 "length evals" evals "cfg_Mode cfg"]
    by (simp add: accounted_def pool_init_def expected_labels_def)
qed

lemma pool_done_accounted:
  assumes "pool_done s"
  shows "accounted evals s = mset (map label (p_results s))"
proof -
  have "list_all (\<lambda>w. w = Exited) ws \<Longrightarrow> sum_list (map (pending evals) ws) = {#}" for ws
    by (induction ws) (simp_all add: pending_def)
  with assms show ?thesis by (simp add: accounted_def pool_done_def)
qed

lemma runParallel_labels:
  assumes "1 < cfg_Jobs cfg" and "runParallel_returns rn cfg evals results"
  shows "mset (map label results) = mset (expected_labels cfg evals)"
proof -
  from assms(2) obtain s where s: "(pool_step rn)\<^sup>*\<^sup>* (pool_init cfg evals) s" and d: "pool_done s"
    and r: "p_results s = results"
    unfolding runParallel_returns_def by blast
  from pool_steps_wf_accounted [OF s pool_init_wf [OF assms(1)]]
  have "accounted evals s = accounted evals (pool_init cfg evals)" by simp
  with pool_done_accounted [OF d] r show ?thesis by (simp add: pool_init_accounted)
qed

lemma runParallel_returns_some:
  assumes "1 < cfg_Jobs cfg"
  shows "\<exists>results. runParallel_returns rn cfg evals results"
  using pool_terminates [OF pool_init_wf [OF assms]]
  unfolding runParallel_returns_def by blast

lemma Run_labels:
  assumes "Run_returns rn cfg evals results"
  shows "mset (map label results) = mset (expected_labels cfg (filter_evals cfg evals))"
  using assms
proof (cases rule: Run_returns.cases)
  case (Sequential w)
  from runSequential_labels [of rn cfg "\<lparr>w_logger = cfg_Logger cfg, w_served = 0\<rparr>"
      "filter_evals cfg evals" "[]"] Sequential(2)
  show ?thesis by simp
next
  case Parallel
  then have "1 < cfg_Jobs cfg" by simp
  from runParallel_labels [OF this Parallel(2)] show ?thesis .
qed

lemma Run_returns_some: "\<exists>results. Run_returns rn cfg evals results"
proof (cases "cfg_Jobs cfg \<le> 1")
  case True
  obtain w results where
    "runSequential rn cfg \<lparr>w_logger = cfg_Logger cfg, w_served = 0\<rparr> (filter_evals cfg evals) [] =
       (w, results)"
    by (metis surj_pair)
  from Run_returns.Sequential [OF True this] show ?thesis by blast
next
  case False
  then have "1 < cfg_Jobs cfg" by simp
  from runParallel_returns_some [OF this] obtain results where
    "runParallel_returns rn cfg (filter_evals cfg evals) results" by blast
  from Run_returns.Parallel [OF False this] show ?thesis by blast
qed

lemma expected_labels_length:
  "length (expected_labels cfg evals) = length (modes_selected (cfg_Mode cfg)) * length evals"
  by (induction evals) (simp_all add: expected_labels_def)

text \<open>
  C4. \<open>Run\<close> returns, and whatever it returns carries, as a multiset, exactly the labels
  (mode-qualified name and category) of the selected (case, mode) pairs: one result for each
  pair, none dropped and none twice. In both mode (also the default for an empty mode) that
  is twice as many results as selected cases, whatever the number of workers.
\<close>

theorem one_result_per_case_and_mode:
  "(\<exists>results. Run_returns rn cfg evals results) \<and>
   (\<forall>results. Run_returns rn cfg evals results \<longrightarrow>
      mset (map label results) = mset (expected_labels cfg (filter_evals cfg evals)) \<and>
      length results = length (modes_selected (cfg_Mode cfg)) * length (filter_evals cfg evals) \<and>
      (cfg_Mode cfg = ModeBoth \<or> cfg_Mode cfg = [] \<longrightarrow>
         length results = 2 * length (filter_evals cfg evals)))"
proof (intro conjI allI impI)
  show "\<exists>results. Run_returns rn cfg evals results" by (rule Run_returns_some)
next
  fix results
  assume r: "Run_returns rn cfg evals results"
  from Run_labels [OF r]
  show m: "mset (map label results) = mset (expected_labels cfg (filter_evals cfg evals))" .
  from m have "size (mset (map label results)) =
      size (mset (expected_labels cfg (filter_evals cfg evals)))" by simp
  then show l: "length results =
      length (modes_selected (cfg_Mode cfg)) * length (filter_evals cfg evals)"
    by (simp add: expected_labels_length)
  assume "cfg_Mode cfg = ModeBoth \<or> cfg_Mode cfg = []"
  then have "length (modes_selected (cfg_Mode cfg)) = 2"
    by (auto simp: modes_selected_def ModeBoth_def ModeBlocking_def ModeStreaming_def)
  with l show "length results = 2 * length (filter_evals cfg evals)" by simp
qed

subsection \<open>The logger does not feed back\<close>

text \<open>
  What a method of the client returns, and how many requests it sends, does not depend on
  the logger: every logging statement only rewrites the logger.
\<close>

lemma with_logger_served: "w_served (with_logger w f) = w_served w"
  by (simp add: with_logger_def split: option.split)

lemma agree_with_logger: "agree w w' \<Longrightarrow> agree (with_logger w f) (with_logger w' g)"
  by (simp add: agree_def with_logger_served)

lemma ChatCompletion_agree:
  assumes "agree w w'"
  shows "fst (ChatCompletion env c w req) = fst (ChatCompletion env c w' req) \<and>
         agree (snd (ChatCompletion env c w req)) (snd (ChatCompletion env c w' req))"
  using assms
  by (auto simp: ChatCompletion_def Let_def agree_def with_logger_served
      split: sum.splits option.splits prod.splits)

lemma ChatCompletionStream_agree:
  assumes "agree w w'"
  shows "fst (ChatCompletionStream env c w req) = fst (ChatCompletionStream env c w' req) \<and>
         agree (snd (ChatCompletionStream env c w req)) (snd (ChatCompletionStream env c w' req))"
  using assms
  by (auto simp: ChatCompletionStream_def Let_def agree_def with_logger_served
      split: sum.splits option.splits prod.splits)

lemma ApplyTemplate_agree:
  assumes "agree w w'"
  shows "fst (ApplyTemplate env c w messages) = fst (ApplyTemplate env c w' messages) \<and>
         agree (snd (ApplyTemplate env c w messages)) (snd (ApplyTemplate env c w' messages))"
  using assms
  by (auto simp: ApplyTemplate_def Let_def agree_def with_logger_served
      split: sum.splits option.splits prod.splits)

lemma perform_agree:
  assumes "agree w w'"
  shows "fst (perform env c w cl) = fst (perform env c w' cl) \<and>
         agree (snd (perform env c w cl)) (snd (perform env c w' cl))"
proof (cases cl)
  case (CallChatCompletion req)
  with ChatCompletion_agree [OF assms, of env c req] show ?thesis
    by (simp add: perform_def case_prod_beta)
next
  case (CallChatCompletionStream req)
  with ChatCompletionStream_agree [OF assms, of env c req] show ?thesis
    by (simp add: perform_def case_prod_beta)
next
  case (CallApplyTemplate messages)
  with ApplyTemplate_agree [OF assms, of env c messages] show ?thesis
    by (simp add: perform_def case_prod_beta)
qed

lemma run_body_agree:
  "agree w w' \<Longrightarrow>
     fst (run_body env c b w) = fst (run_body env c b w') \<and>
     agree (snd (run_body env c b w)) (snd (run_body env c b w'))"
proof (induction b arbitrary: w w')
  case (Return res)
  then show ?case by simp
next
  case (Call cl continue)
  from perform_agree [OF Call.prems, of env c cl]
  have r: "fst (perform env c w cl) = fst (perform env c w' cl)"
    and a: "agree (snd (perform env c w cl)) (snd (perform env c w' cl))" by simp_all
  from Call.IH [OF _ a, of "continue (fst (perform env c w cl))"] r show ?case
    by (simp add: case_prod_beta)
qed

lemma body_result_agree: "agree w w' \<Longrightarrow> body_result rn w e = body_result rn w' e"
  using run_body_agree [of w w'] by (simp add: body_result_def)

lemma prepare_eval_agree:
  "agree w w' \<Longrightarrow>
     snd (prepare_eval w e s) = snd (prepare_eval w' e s) \<and>
     agree (fst (prepare_eval w e s)) (fst (prepare_eval w' e s))"
  by (simp add: prepare_eval_eq agree_with_logger)

lemma execute_eval_agree:
  "agree w w' \<Longrightarrow>
     outcome (snd (execute_eval rn w e name)) = outcome (snd (execute_eval rn w' e name)) \<and>
     agree (fst (execute_eval rn w e name)) (fst (execute_eval rn w' e name))"
  using run_body_agree [of w w' "rn_env rn" "rn_client rn" "eval_Run e (streaming e)"]
  by (simp add: execute_eval_def Let_def case_prod_beta agree_with_logger outcome_def)

lemma runSingleEval_agree:
  assumes "agree w w'"
  shows "fst (snd (runSingleEval rn w e s)) = fst (snd (runSingleEval rn w' e s)) \<and>
         outcome (snd (snd (runSingleEval rn w e s))) =
           outcome (snd (snd (runSingleEval rn w' e s))) \<and>
         agree (fst (runSingleEval rn w e s)) (fst (runSingleEval rn w' e s))"
proof -
  from prepare_eval_agree [OF assms, of e s]
  have p: "snd (prepare_eval w e s) = snd (prepare_eval w' e s)"
    and a: "agree (fst (prepare_eval w e s)) (fst (prepare_eval w' e s))" by simp_all
  from execute_eval_agree [OF a, of rn "fst (snd (prepare_eval w e s))"
      "snd (snd (prepare_eval w e s))"] p
  show ?thesis by (simp add: runSingleEval_def case_prod_beta)
qed

lemma runEvalInModes_agree:
  assumes "agree w w'" and "cfg_Mode cfg' = cfg_Mode cfg"
  shows "map outcome (snd (snd (runEvalInModes rn cfg w e))) =
           map outcome (snd (snd (runEvalInModes rn cfg' w' e))) \<and>
         agree (fst (runEvalInModes rn cfg w e)) (fst (runEvalInModes rn cfg' w' e))"
proof -
  let ?f = "runSingleEval rn w e False" and ?f' = "runSingleEval rn w' e False"
  from runSingleEval_agree [OF assms(1), of rn e False]
  have fe: "fst (snd ?f') = fst (snd ?f)"
    and fr: "outcome (snd (snd ?f)) = outcome (snd (snd ?f'))"
    and fa: "agree (fst ?f) (fst ?f')"
    by simp_all
  from runSingleEval_agree [OF assms(1), of rn e True]
  have tr: "outcome (snd (snd (runSingleEval rn w e True))) =
      outcome (snd (snd (runSingleEval rn w' e True)))"
    and ta: "agree (fst (runSingleEval rn w e True)) (fst (runSingleEval rn w' e True))"
    by simp_all
  from runSingleEval_agree [OF fa, of rn "fst (snd ?f)" True]
  have sr: "outcome (snd (snd (runSingleEval rn (fst ?f) (fst (snd ?f)) True))) =
      outcome (snd (snd (runSingleEval rn (fst ?f') (fst (snd ?f)) True)))"
    and sa: "agree (fst (runSingleEval rn (fst ?f) (fst (snd ?f)) True))
      (fst (runSingleEval rn (fst ?f') (fst (snd ?f)) True))"
    by simp_all
  show ?thesis
    using assms fa ta sa fr tr sr
    by (simp add: runEvalInModes_def Let_def case_prod_beta fe
        ModeBoth_def ModeBlocking_def ModeStreaming_def)
qed

lemma runSequential_agree:
  "agree w w' \<Longrightarrow> cfg_Mode cfg' = cfg_Mode cfg \<Longrightarrow>
     map outcome results = map outcome results' \<Longrightarrow>
     map outcome (snd (runSequential rn cfg w evals results)) =
       map outcome (snd (runSequential rn cfg' w' evals results'))"
proof (induction evals arbitrary: w w' results results')
  case Nil
  then show ?case by simp
next
  case (Cons e es)
  from runEvalInModes_agree [OF Cons.prems(1,2), of rn e]
  have r: "map outcome (snd (snd (runEvalInModes rn cfg w e))) =
      map outcome (snd (snd (runEvalInModes rn cfg' w' e)))"
    and a: "agree (fst (runEvalInModes rn cfg w e)) (fst (runEvalInModes rn cfg' w' e))"
    by simp_all
  from r Cons.prems(3)
  have "map outcome (results @ snd (snd (runEvalInModes rn cfg w e))) =
      map outcome (results' @ snd (snd (runEvalInModes rn cfg' w' e)))" by simp
  from Cons.IH [OF a Cons.prems(2) this] show ?case
    by (simp add: case_prod_beta)
qed

lemma filter_evals_logger: "filter_evals (cfg\<lparr>cfg_Logger := lg\<rparr>) evals = filter_evals cfg evals"
  by (simp add: filter_evals_filter other_filters_def)

lemma outcome_of_simps:
  "outcome_of wk = outcome_of Idle \<longleftrightarrow> wk = Idle"
  "outcome_of wk = outcome_of (Received job) \<longleftrightarrow> wk = Received job"
  "outcome_of wk = outcome_of (Prepared i name) \<longleftrightarrow> wk = Prepared i name"
  "outcome_of wk = outcome_of Exited \<longleftrightarrow> wk = Exited"
  "outcome_of wk = outcome_of (Sending res) \<longleftrightarrow>
     (\<exists>res'. wk = Sending res' \<and> outcome res' = outcome res)"
  by (cases wk; simp add: outcome_of_def)+

lemma same_pool_worker:
  assumes "same_pool s t" and "w < length (p_workers s)"
  shows "w < length (p_workers t)" and "outcome_of (p_workers t ! w) = outcome_of (p_workers s ! w)"
proof -
  from assms(1) have m: "map outcome_of (p_workers s) = map outcome_of (p_workers t)"
    by (simp add: same_pool_def)
  then have "length (p_workers s) = length (p_workers t)" by (metis length_map)
  with assms(2) show l: "w < length (p_workers t)" by simp
  from m assms(2) l show "outcome_of (p_workers t ! w) = outcome_of (p_workers s ! w)"
    by (metis nth_map)
qed

lemma same_pool_update:
  assumes "same_pool s t" and "outcome_of x = outcome_of y"
  shows "map outcome_of ((p_workers s)[w := x]) = map outcome_of ((p_workers t)[w := y])"
  using assms by (simp add: same_pool_def map_update)

lemma same_pool_update_same:
  assumes "same_pool s t"
  shows "map outcome_of ((p_workers s)[w := x]) = map outcome_of ((p_workers t)[w := x])"
  using assms by (simp add: same_pool_def map_update)

lemma pool_step_sim:
  assumes "pool_step rn s s'" and "same_pool s t"
  shows "\<exists>t'. pool_step rn t t' \<and> same_pool s' t'"
  using assms(1)
proof (cases rule: pool_step.cases)
  case (Receive w job rest)
  from same_pool_worker [OF assms(2) Receive(2)] Receive(3)
  have "w < length (p_workers t)" "p_workers t ! w = Idle"
    by (simp_all add: outcome_of_simps)
  moreover from Receive(4) assms(2) have "p_queue t = job # rest" by (simp add: same_pool_def)
  ultimately
  have "pool_step rn t (t\<lparr>p_queue := rest, p_workers := (p_workers t)[w := Received job]\<rparr>)"
    by (rule pool_step.Receive)
  moreover from Receive(1) assms(2) same_pool_update_same [OF assms(2), where x = "Received job" and w = w]
  have "same_pool s' (t\<lparr>p_queue := rest, p_workers := (p_workers t)[w := Received job]\<rparr>)"
    by (simp add: same_pool_def)
  ultimately show ?thesis by blast
next
  case (Prepare w job w1 e name)
  from assms(2) have a: "agree (p_world s) (p_world t)" by (simp add: same_pool_def)
  let ?p = "prepare_eval (p_world t) (p_store s ! job_eval job) (job_streaming job)"
  from prepare_eval_agree [OF a, of "p_store s ! job_eval job" "job_streaming job"] Prepare(5)
  have p: "?p = (fst ?p, e, name)" and a1: "agree w1 (fst ?p)"
    by (simp_all add: prod_eq_iff)
  from same_pool_worker [OF assms(2) Prepare(2)] Prepare(3)
  have "w < length (p_workers t)" "p_workers t ! w = Received job"
    by (simp_all add: outcome_of_simps)
  moreover from Prepare(4) assms(2) have "job_eval job < length (p_store t)"
    by (simp add: same_pool_def)
  moreover from p assms(2) have
    "prepare_eval (p_world t) (p_store t ! job_eval job) (job_streaming job) = (fst ?p, e, name)"
    by (simp add: same_pool_def)
  ultimately have "pool_step rn t (t\<lparr>p_workers := (p_workers t)[w := Prepared (job_eval job) name],
      p_store := (p_store t)[job_eval job := e], p_world := fst ?p\<rparr>)"
    by (rule pool_step.Prepare)
  moreover from Prepare(1) assms(2) a1
    same_pool_update_same [OF assms(2), where x = "Prepared (job_eval job) name" and w = w]
  have "same_pool s' (t\<lparr>p_workers := (p_workers t)[w := Prepared (job_eval job) name],
      p_store := (p_store t)[job_eval job := e], p_world := fst ?p\<rparr>)"
    by (simp add: same_pool_def)
  ultimately show ?thesis by blast
next
  case (Execute w i name w1 res)
  from assms(2) have a: "agree (p_world s) (p_world t)" by (simp add: same_pool_def)
  let ?x = "execute_eval rn (p_world t) (p_store s ! i) name"
  from execute_eval_agree [OF a, of rn "p_store s ! i" name] Execute(5)
  have o: "outcome_of (Sending res) = outcome_of (Sending (snd ?x))" and a1: "agree w1 (fst ?x)"
    by (simp_all add: outcome_of_def)
  from same_pool_worker [OF assms(2) Execute(2)] Execute(3)
  have "w < length (p_workers t)" "p_workers t ! w = Prepared i name"
    by (simp_all add: outcome_of_simps)
  moreover from Execute(4) assms(2) have "i < length (p_store t)" by (simp add: same_pool_def)
  moreover from assms(2) have "execute_eval rn (p_world t) (p_store t ! i) name = (fst ?x, snd ?x)"
    by (simp add: same_pool_def)
  ultimately have "pool_step rn t (t\<lparr>p_workers := (p_workers t)[w := Sending (snd ?x)],
      p_world := fst ?x\<rparr>)"
    by (rule pool_step.Execute)
  moreover from Execute(1) assms(2) a1 same_pool_update [OF assms(2) o, where w = w]
  have "same_pool s' (t\<lparr>p_workers := (p_workers t)[w := Sending (snd ?x)],
      p_world := fst ?x\<rparr>)"
    by (simp add: same_pool_def)
  ultimately show ?thesis by blast
next
  case (Deliver w res)
  from same_pool_worker [OF assms(2) Deliver(2)] Deliver(3)
  obtain res' where l: "w < length (p_workers t)" and r: "p_workers t ! w = Sending res'"
    and o: "outcome res' = outcome res"
    by (auto simp: outcome_of_simps)
  from pool_step.Deliver [OF l r]
  have "pool_step rn t (t\<lparr>p_workers := (p_workers t)[w := Idle],
      p_results := p_results t @ [res']\<rparr>)" .
  moreover from Deliver(1) assms(2) o same_pool_update_same [OF assms(2), where x = Idle and w = w]
  have "same_pool s' (t\<lparr>p_workers := (p_workers t)[w := Idle],
      p_results := p_results t @ [res']\<rparr>)"
    by (simp add: same_pool_def)
  ultimately show ?thesis by blast
next
  case (Leave w)
  from same_pool_worker [OF assms(2) Leave(2)] Leave(3)
  have "w < length (p_workers t)" "p_workers t ! w = Idle"
    by (simp_all add: outcome_of_simps)
  moreover from Leave(4) assms(2) have "p_queue t = []" by (simp add: same_pool_def)
  ultimately have "pool_step rn t (t\<lparr>p_workers := (p_workers t)[w := Exited]\<rparr>)"
    by (rule pool_step.Leave)
  moreover from Leave(1) assms(2) same_pool_update_same [OF assms(2), where x = Exited and w = w]
  have "same_pool s' (t\<lparr>p_workers := (p_workers t)[w := Exited]\<rparr>)"
    by (simp add: same_pool_def)
  ultimately show ?thesis by blast
qed

lemma pool_steps_sim:
  "(pool_step rn)\<^sup>*\<^sup>* s s' \<Longrightarrow> same_pool s t \<Longrightarrow>
     \<exists>t'. (pool_step rn)\<^sup>*\<^sup>* t t' \<and> same_pool s' t'"
proof (induction rule: rtranclp_induct)
  case base
  then show ?case by blast
next
  case (step u v)
  then obtain u' where u: "(pool_step rn)\<^sup>*\<^sup>* t u'" and su: "same_pool u u'" by blast
  from pool_step_sim [OF step.hyps(2) su] obtain v' where "pool_step rn u' v'" and "same_pool v v'"
    by blast
  with u show ?case by (meson rtranclp.rtrancl_into_rtrancl)
qed

lemma same_pool_done: "same_pool s t \<Longrightarrow> pool_done s \<Longrightarrow> pool_done t"
proof -
  assume st: "same_pool s t" and d: "pool_done s"
  from st have q: "p_queue t = p_queue s"
    and m: "map outcome_of (p_workers s) = map outcome_of (p_workers t)"
    by (simp_all add: same_pool_def)
  from d have "\<forall>wk \<in> set (p_workers s). outcome_of wk = outcome_of Exited"
    by (auto simp: pool_done_def list_all_iff)
  then have "\<forall>x \<in> set (map outcome_of (p_workers s)). x = outcome_of Exited" by simp
  with m have "\<forall>x \<in> set (map outcome_of (p_workers t)). x = outcome_of Exited" by simp
  then have "\<forall>wk \<in> set (p_workers t). wk = Exited" by (simp add: outcome_of_simps)
  with q d show ?thesis by (simp add: pool_done_def list_all_iff)
qed

lemma runParallel_returns_logger:
  assumes "runParallel_returns rn (cfg\<lparr>cfg_Logger := lg\<rparr>) evals results"
  shows "\<exists>results'. runParallel_returns rn (cfg\<lparr>cfg_Logger := lg'\<rparr>) evals results' \<and>
           map outcome results' = map outcome results"
proof -
  from assms obtain s where
    s: "(pool_step rn)\<^sup>*\<^sup>* (pool_init (cfg\<lparr>cfg_Logger := lg\<rparr>) evals) s"
    and d: "pool_done s" and r: "p_results s = results"
    unfolding runParallel_returns_def by blast
  have "same_pool (pool_init (cfg\<lparr>cfg_Logger := lg\<rparr>) evals)
      (pool_init (cfg\<lparr>cfg_Logger := lg'\<rparr>) evals)"
    by (simp add: same_pool_def pool_init_def agree_def)
  from pool_steps_sim [OF s this] obtain t where
    t: "(pool_step rn)\<^sup>*\<^sup>* (pool_init (cfg\<lparr>cfg_Logger := lg'\<rparr>) evals) t"
    and st: "same_pool s t"
    by blast
  from st r have "map outcome (p_results t) = map outcome results"
    by (simp add: same_pool_def)
  with t same_pool_done [OF st d] show ?thesis unfolding runParallel_returns_def by blast
qed

lemma Run_returns_logger:
  assumes "Run_returns rn (cfg\<lparr>cfg_Logger := lg\<rparr>) evals results"
  shows "\<exists>results'. Run_returns rn (cfg\<lparr>cfg_Logger := lg'\<rparr>) evals results' \<and>
           map outcome results' = map outcome results"
  using assms
proof (cases rule: Run_returns.cases)
  case (Sequential w)
  let ?w = "\<lambda>x. \<lparr>w_logger = x, w_served = 0\<rparr>"
  let ?r = "runSequential rn (cfg\<lparr>cfg_Logger := lg'\<rparr>) (?w lg') (filter_evals cfg evals) []"
  from Sequential(2) have "results = snd (runSequential rn (cfg\<lparr>cfg_Logger := lg\<rparr>) (?w lg)
      (filter_evals cfg evals) [])"
    by (simp add: filter_evals_logger)
  moreover have "map outcome (snd (runSequential rn (cfg\<lparr>cfg_Logger := lg\<rparr>) (?w lg)
      (filter_evals cfg evals) [])) = map outcome (snd ?r)"
    by (rule runSequential_agree) (simp_all add: agree_def)
  ultimately have o: "map outcome (snd ?r) = map outcome results" by simp
  have e: "runSequential rn (cfg\<lparr>cfg_Logger := lg'\<rparr>)
      \<lparr>w_logger = cfg_Logger (cfg\<lparr>cfg_Logger := lg'\<rparr>), w_served = 0\<rparr>
      (filter_evals (cfg\<lparr>cfg_Logger := lg'\<rparr>) evals) [] = (fst ?r, snd ?r)"
    by (simp add: filter_evals_logger)
  from Sequential(1) have j: "cfg_Jobs (cfg\<lparr>cfg_Logger := lg'\<rparr>) \<le> 1" by simp
  from Run_returns.Sequential [OF j e] o show ?thesis by blast
next
  case Parallel
  from Parallel(2)
  have "runParallel_returns rn (cfg\<lparr>cfg_Logger := lg\<rparr>) (filter_evals cfg evals) results"
    by (simp add: filter_evals_logger)
  from runParallel_returns_logger [OF this, of lg'] obtain results' where
    "runParallel_returns rn (cfg\<lparr>cfg_Logger := lg'\<rparr>) (filter_evals cfg evals) results'"
    and o: "map outcome results' = map outcome results" by blast
  then have p: "runParallel_returns rn (cfg\<lparr>cfg_Logger := lg'\<rparr>)
      (filter_evals (cfg\<lparr>cfg_Logger := lg'\<rparr>) evals) results'"
    by (simp add: filter_evals_logger)
  from Parallel(1) have j: "\<not> cfg_Jobs (cfg\<lparr>cfg_Logger := lg'\<rparr>) \<le> 1" by simp
  from Run_returns.Parallel [OF j p] o show ?thesis by blast
qed

text \<open>
  C9. The replies of the client to a body are the same with and without the logger, though
  the client logs every exchange when it has one. Hence the \<open>Passed\<close> flag and the
  \<open>Message\<close> of the result of a single eval are the same, and for every result list that
  \<open>Run\<close> can return without a logger it can return one with the same names, categories,
  \<open>Passed\<close> flags and messages with a logger, and the other way round, in the sequential
  loop and in the worker pool.
\<close>

theorem logger_does_not_change_results:
  "(\<forall>results. Run_returns rn (cfg\<lparr>cfg_Logger := None\<rparr>) evals results \<longrightarrow>
      (\<exists>results'. Run_returns rn (cfg\<lparr>cfg_Logger := Some l\<rparr>) evals results' \<and>
         map outcome results' = map outcome results)) \<and>
   (\<forall>results. Run_returns rn (cfg\<lparr>cfg_Logger := Some l\<rparr>) evals results \<longrightarrow>
      (\<exists>results'. Run_returns rn (cfg\<lparr>cfg_Logger := None\<rparr>) evals results' \<and>
         map outcome results' = map outcome results)) \<and>
   fst (perform (rn_env rn) (rn_client rn) \<lparr>w_logger = None, w_served = n\<rparr> cl) =
     fst (perform (rn_env rn) (rn_client rn) \<lparr>w_logger = Some l, w_served = n\<rparr> cl) \<and>
   Passed (snd (snd (runSingleEval rn \<lparr>w_logger = None, w_served = n\<rparr> e s))) =
     Passed (snd (snd (runSingleEval rn \<lparr>w_logger = Some l, w_served = n\<rparr> e s))) \<and>
   Message (snd (snd (runSingleEval rn \<lparr>w_logger = None, w_served = n\<rparr> e s))) =
     Message (snd (snd (runSingleEval rn \<lparr>w_logger = Some l, w_served = n\<rparr> e s)))"
proof -
  have a: "agree \<lparr>w_logger = None, w_served = n\<rparr> \<lparr>w_logger = Some l, w_served = n\<rparr>"
    by (simp add: agree_def)
  from runSingleEval_agree [OF a, of rn e s]
  have "outcome (snd (snd (runSingleEval rn \<lparr>w_logger = None, w_served = n\<rparr> e s))) =
      outcome (snd (snd (runSingleEval rn \<lparr>w_logger = Some l, w_served = n\<rparr> e s)))"
    by simp
  then have "Passed (snd (snd (runSingleEval rn \<lparr>w_logger = None, w_served = n\<rparr> e s))) =
      Passed (snd (snd (runSingleEval rn \<lparr>w_logger = Some l, w_served = n\<rparr> e s)))"
    and "Message (snd (snd (runSingleEval rn \<lparr>w_logger = None, w_served = n\<rparr> e s))) =
      Message (snd (snd (runSingleEval rn \<lparr>w_logger = Some l, w_served = n\<rparr> e s)))"
    by (simp_all add: outcome_def)
  moreover from perform_agree [OF a, of "rn_env rn" "rn_client rn" cl]
  have "fst (perform (rn_env rn) (rn_client rn) \<lparr>w_logger = None, w_served = n\<rparr> cl) =
      fst (perform (rn_env rn) (rn_client rn) \<lparr>w_logger = Some l, w_served = n\<rparr> cl)"
    by simp
  moreover have "\<forall>results. Run_returns rn (cfg\<lparr>cfg_Logger := None\<rparr>) evals results \<longrightarrow>
      (\<exists>results'. Run_returns rn (cfg\<lparr>cfg_Logger := Some l\<rparr>) evals results' \<and>
         map outcome results' = map outcome results)"
    by (blast intro: Run_returns_logger)
  moreover have "\<forall>results. Run_returns rn (cfg\<lparr>cfg_Logger := Some l\<rparr>) evals results \<longrightarrow>
      (\<exists>results'. Run_returns rn (cfg\<lparr>cfg_Logger := None\<rparr>) evals results' \<and>
         map outcome results' = map outcome results)"
    by (blast intro: Run_returns_logger)
  ultimately show ?thesis by blast
qed

subsection \<open>Names\<close>

lemma Run_label_of_job:
  assumes "Run_returns rn cfg evals results" and "r \<in> set results"
  shows "\<exists>e s. e \<in> set (filter_evals cfg evals) \<and> s \<in> set (modes_selected (cfg_Mode cfg)) \<and>
           Name r = eval_Name e @ mode_suffix s \<and> Category r = eval_Category e"
proof -
  from Run_labels [OF assms(1)]
  have "set (map label results) = set (expected_labels cfg (filter_evals cfg evals))"
    by (metis set_mset_mset)
  with assms(2) have "label r \<in> set (expected_labels cfg (filter_evals cfg evals))" by auto
  then show ?thesis
    by (auto simp: expected_labels_def label_def job_label_def)
qed

lemma suffixes_differ: "name @ mode_suffix False \<noteq> name @ mode_suffix True"
  by (simp add: mode_suffix_def)

lemma runEvalInModes_names:
  "map Name (snd (snd (runEvalInModes rn cfg w e))) =
     map (\<lambda>s. eval_Name e @ mode_suffix s) (modes_selected (cfg_Mode cfg))"
proof -
  have "map Name (snd (snd (runEvalInModes rn cfg w e))) =
      map fst (map label (snd (snd (runEvalInModes rn cfg w e))))"
    by (simp add: label_def comp_def)
  then show ?thesis
    by (simp only: runEvalInModes_labels) (simp add: job_label_def comp_def)
qed

text \<open>
  C8, as amended. The name of a result is always the name of its case followed by the suffix
  of its delivery mode, whether one mode or both are run; the two names of one case differ.
\<close>

theorem result_name_always_mode_qualified:
  "Name (snd (snd (runSingleEval rn w e s))) = eval_Name e @ mode_suffix s \<and>
   map Name (snd (snd (runEvalInModes rn cfg w e))) =
     map (\<lambda>s. eval_Name e @ mode_suffix s) (modes_selected (cfg_Mode cfg)) \<and>
   eval_Name e @ mode_suffix False \<noteq> eval_Name e @ mode_suffix True \<and>
   (\<forall>results r. Run_returns rn cfg evals results \<and> r \<in> set results \<longrightarrow>
      (\<exists>e' s'. e' \<in> set (filter_evals cfg evals) \<and> s' \<in> set (modes_selected (cfg_Mode cfg)) \<and>
         Name r = eval_Name e' @ mode_suffix s'))"
proof -
  have "Name (snd (snd (runSingleEval rn w e s))) = eval_Name e @ mode_suffix s"
    by (simp add: runSingleEval_result Let_def)
  moreover note runEvalInModes_names [of rn cfg w e] suffixes_differ [of "eval_Name e"]
  moreover have "\<forall>results r. Run_returns rn cfg evals results \<and> r \<in> set results \<longrightarrow>
      (\<exists>e' s'. e' \<in> set (filter_evals cfg evals) \<and> s' \<in> set (modes_selected (cfg_Mode cfg)) \<and>
         Name r = eval_Name e' @ mode_suffix s')"
    using Run_label_of_job by blast
  ultimately show ?thesis by blast
qed

subsection \<open>The mode setter\<close>












subsection \<open>The claims at the example registry\<close>

lemmas registry_defs = demo_run_def demo_cfg_def demo_evals_def demo_json_def demo_reasoning_def
  demo_agentic_def demo_eval_def demo_logger_def demo_world_def
  ClassMatches_def ClassStandard_def ClassReasoning_def ClassInterleaved_def AllClasses_def
  ModeBlocking_def ModeStreaming_def ModeBoth_def IsDefaultDisabled_def Contains_def

lemmas client_defs = demo_rn_def demo_env_def demo_body_def demo_check_def demo_failed_def
  demo_passed_def demo_request_def demo_response_def
  execute_eval_def perform_def ChatCompletion_def ChatCompletionStream_def StatusOK_def
  setHeaders_def with_logger_def

lemma demo_run_returns:
  "Run_returns demo_rn (demo_cfg class mode) evals (demo_run (demo_cfg class mode) evals)"
proof -
  have j: "cfg_Jobs (demo_cfg class mode) \<le> 1" by (simp add: demo_cfg_def)
  have "runSequential demo_rn (demo_cfg class mode)
      \<lparr>w_logger = cfg_Logger (demo_cfg class mode), w_served = 0\<rparr>
      (filter_evals (demo_cfg class mode) evals) [] =
      (fst (runSequential demo_rn (demo_cfg class mode)
         \<lparr>w_logger = cfg_Logger (demo_cfg class mode), w_served = 0\<rparr>
         (filter_evals (demo_cfg class mode) evals) []), demo_run (demo_cfg class mode) evals)"
    by (simp add: demo_run_def)
  from Run_returns.Sequential [OF j this] show ?thesis .
qed

lemma demo_run_names:
  "map Name (demo_run cfg evals) = map fst (expected_labels cfg (filter_evals cfg evals))"
proof -
  have "map Name (demo_run cfg evals) = map fst (map label (demo_run cfg evals))"
    by (simp add: label_def comp_def)
  then show ?thesis by (simp only: demo_run_def runSequential_labels) simp
qed

lemmas label_defs = expected_labels_def job_label_def mode_suffix_def modes_selected_def

lemma demo_names_both:
  "map Name (demo_run (demo_cfg [] ModeBoth) demo_evals) =
     [''json_schema (blocking)'', ''json_schema (streaming)'',
      ''reasoning_present (blocking)'', ''reasoning_present (streaming)'',
      ''agentic_tool_call (blocking)'', ''agentic_tool_call (streaming)'']"
  unfolding demo_run_names by (simp add: label_defs registry_defs)

lemma demo_names_blocking:
  "map Name (demo_run (demo_cfg [] ModeBlocking) demo_evals) =
     [''json_schema (blocking)'', ''reasoning_present (blocking)'',
      ''agentic_tool_call (blocking)'']"
  unfolding demo_run_names by (simp add: label_defs registry_defs)


lemma demo_names_json:
  "map Name (demo_run (demo_cfg [] ModeBlocking) [demo_json]) = [''json_schema (blocking)'']"
  unfolding demo_run_names by (simp add: label_defs registry_defs)

text \<open>The example body against the example server: it fails when blocking and passes when streaming.\<close>

lemma demo_blocking_verdict:
  "run_body demo_env (rn_client demo_rn) (demo_body False) \<lparr>w_logger = None, w_served = n\<rparr> =
     (demo_failed ''no choices in response'', \<lparr>w_logger = None, w_served = Suc n\<rparr>)"
  by (simp add: client_defs Let_def)

lemma demo_stream_parse:
  "parseSSEStream demo_unmarshal demo_lines None = (Some demo_result, frames (take 6 demo_lines), None)"
  by (simp add: parse_defs demo_defs frames_def)

lemma demo_streaming_verdict:
  "run_body demo_env (rn_client demo_rn) (demo_body True) \<lparr>w_logger = None, w_served = n\<rparr> =
     (demo_passed, \<lparr>w_logger = None, w_served = Suc n\<rparr>)"
  by (simp add: client_defs Let_def demo_stream_parse) (simp add: demo_result_def)

lemma demo_single_json:
  "runSingleEval demo_rn \<lparr>w_logger = None, w_served = n\<rparr> demo_json s =
     (\<lparr>w_logger = None, w_served = Suc n\<rparr>, demo_json\<lparr>streaming := s\<rparr>,
      \<lparr>Name = ''json_schema'' @ mode_suffix s, Category = ''Structured Output'', Passed = s,
       Message = (if s then [] else ''no choices in response''), Duration = 5\<rparr>)"
  using demo_blocking_verdict [of n] demo_streaming_verdict [of n]
  by (cases s)
    (simp_all add: runSingleEval_def prepare_eval_eq execute_eval_def SetStreaming_def
      with_logger_def demo_json_def demo_eval_def demo_rn_def demo_failed_def demo_passed_def
      mode_suffix_def Let_def)

lemma demo_single_agentic:
  "runSingleEval demo_rn \<lparr>w_logger = None, w_served = n\<rparr> demo_agentic s =
     (\<lparr>w_logger = None, w_served = Suc n\<rparr>, demo_agentic,
      \<lparr>Name = ''agentic_tool_call'' @ mode_suffix s, Category = ''Agentic'', Passed = True,
       Message = [], Duration = 5\<rparr>)"
  using demo_streaming_verdict [of n]
  by (simp add: runSingleEval_def prepare_eval_eq execute_eval_def SetStreaming_def
      with_logger_def demo_agentic_def demo_eval_def demo_rn_def demo_passed_def Let_def)

text \<open>
  C4 at the example registry in both mode: six results for three cases, from the sequential
  run and from every run of a pool of four workers.
\<close>

theorem one_result_per_case_and_mode_witness:
  "Run_returns demo_rn (demo_cfg [] ModeBoth) demo_evals
     (demo_run (demo_cfg [] ModeBoth) demo_evals) \<and>
   map Name (demo_run (demo_cfg [] ModeBoth) demo_evals) =
     [''json_schema (blocking)'', ''json_schema (streaming)'',
      ''reasoning_present (blocking)'', ''reasoning_present (streaming)'',
      ''agentic_tool_call (blocking)'', ''agentic_tool_call (streaming)''] \<and>
   length (demo_run (demo_cfg [] ModeBoth) demo_evals) = 2 * 3 \<and>
   (\<exists>results. Run_returns demo_rn ((demo_cfg [] ModeBoth)\<lparr>cfg_Jobs := 4\<rparr>) demo_evals results \<and>
      length results = 2 * 3)"
proof -
  let ?par = "(demo_cfg [] ModeBoth)\<lparr>cfg_Jobs := 4\<rparr>"
  have pm: "cfg_Mode ?par = ModeBoth \<or> cfg_Mode ?par = []"
    by (simp add: demo_cfg_def)
  have pf: "length (filter_evals ?par demo_evals) = 3"
    by (simp add: registry_defs)
  from one_result_per_case_and_mode [of demo_rn ?par demo_evals] pm
  have "\<exists>results. Run_returns demo_rn ?par demo_evals results \<and>
      length results = 2 * length (filter_evals ?par demo_evals)"
    by blast
  with pf have p: "\<exists>results. Run_returns demo_rn ?par demo_evals results \<and> length results = 2 * 3"
    by simp
  have m: "cfg_Mode (demo_cfg [] ModeBoth) = ModeBoth \<or> cfg_Mode (demo_cfg [] ModeBoth) = []"
    by (simp add: demo_cfg_def)
  have f: "length (filter_evals (demo_cfg [] ModeBoth) demo_evals) = 3"
    by (simp add: registry_defs)
  from one_result_per_case_and_mode [of demo_rn "demo_cfg [] ModeBoth" demo_evals]
    demo_run_returns [of "[]" ModeBoth demo_evals] m
  have "length (demo_run (demo_cfg [] ModeBoth) demo_evals) =
      2 * length (filter_evals (demo_cfg [] ModeBoth) demo_evals)"
    by blast
  with f have "length (demo_run (demo_cfg [] ModeBoth) demo_evals) = 2 * 3" by simp
  with demo_run_returns [of "[]" ModeBoth demo_evals] demo_names_both p show ?thesis by blast
qed

text \<open>C6 at the example registry: the requested classes reasoning, interleaved and none.\<close>

theorem tier_selection_is_inclusive_witness:
  "ClassStandard \<in> set AllClasses \<and> ClassReasoning \<in> set AllClasses \<and>
   ClassMatches ClassStandard ClassReasoning \<and>
   map eval_Name (filter_evals (demo_cfg ClassReasoning ModeBoth) demo_evals) =
     [''json_schema'', ''reasoning_present''] \<and>
   map eval_Name (filter_evals (demo_cfg ClassInterleaved ModeBoth) demo_evals) =
     [''json_schema'', ''reasoning_present'', ''agentic_tool_call''] \<and>
   map eval_Name (filter_evals (demo_cfg [] ModeBoth) demo_evals) =
     [''json_schema'', ''reasoning_present'', ''agentic_tool_call'']"
proof -
  have c: "ClassStandard \<in> set AllClasses \<and> ClassReasoning \<in> set AllClasses"
    by (simp add: AllClasses_def)
  have r: "tier_rank ClassStandard \<le> tier_rank ClassReasoning"
    by (simp add: tier_rank_def)
  from tier_selection_is_inclusive [of ClassStandard ClassReasoning demo_evals
      "demo_cfg ClassReasoning ModeBoth"] c r
  have "ClassMatches ClassStandard ClassReasoning" by blast
  with c show ?thesis by (simp add: registry_defs)
qed

text \<open>
  C9 at the example registry: a request gets the same reply without and with the example
  logger, the verdict of a case is the same, and for the result list of the sequential run
  and for a result list of a pool of four workers without the logger there is one with the
  logger that has the same outcomes.
\<close>

theorem logger_does_not_change_results_witness:
  "Run_returns demo_rn ((demo_cfg [] ModeBoth)\<lparr>cfg_Logger := None\<rparr>) demo_evals
     (demo_run (demo_cfg [] ModeBoth) demo_evals) \<and>
   (\<exists>results'.
      Run_returns demo_rn ((demo_cfg [] ModeBoth)\<lparr>cfg_Logger := Some demo_logger\<rparr>) demo_evals
        results' \<and>
      map outcome results' = map outcome (demo_run (demo_cfg [] ModeBoth) demo_evals)) \<and>
   (\<exists>results results'.
      Run_returns demo_rn ((demo_cfg [] ModeBoth)\<lparr>cfg_Jobs := 4, cfg_Logger := None\<rparr>)
        demo_evals results \<and>
      Run_returns demo_rn ((demo_cfg [] ModeBoth)\<lparr>cfg_Jobs := 4, cfg_Logger := Some demo_logger\<rparr>)
        demo_evals results' \<and>
      map outcome results' = map outcome results) \<and>
   Passed (snd (snd (runSingleEval demo_rn \<lparr>w_logger = None, w_served = 0\<rparr> demo_json True))) \<and>
   Passed (snd (snd (runSingleEval demo_rn \<lparr>w_logger = Some demo_logger, w_served = 0\<rparr>
     demo_json True)))"
proof -
  let ?seq = "demo_cfg [] ModeBoth"
  let ?par = "(demo_cfg [] ModeBoth)\<lparr>cfg_Jobs := 4\<rparr>"
  from Run_returns_some [of demo_rn "?par\<lparr>cfg_Logger := None\<rparr>" demo_evals] obtain results where
    r: "Run_returns demo_rn (?par\<lparr>cfg_Logger := None\<rparr>) demo_evals results" by blast
  with logger_does_not_change_results [of demo_rn ?par demo_evals demo_logger]
  have p: "\<exists>results results'.
      Run_returns demo_rn (?par\<lparr>cfg_Logger := None\<rparr>) demo_evals results \<and>
      Run_returns demo_rn (?par\<lparr>cfg_Logger := Some demo_logger\<rparr>) demo_evals results' \<and>
      map outcome results' = map outcome results"
    by blast
  have "?seq\<lparr>cfg_Logger := None\<rparr> = ?seq"
    by (simp add: demo_cfg_def)
  with demo_run_returns [of "[]" ModeBoth demo_evals]
  have n: "Run_returns demo_rn (?seq\<lparr>cfg_Logger := None\<rparr>) demo_evals (demo_run ?seq demo_evals)"
    by simp
  with logger_does_not_change_results [of demo_rn ?seq demo_evals demo_logger]
  have s: "\<exists>results'. Run_returns demo_rn (?seq\<lparr>cfg_Logger := Some demo_logger\<rparr>) demo_evals results' \<and>
      map outcome results' = map outcome (demo_run ?seq demo_evals)"
    by blast
  have v: "Passed (snd (snd (runSingleEval demo_rn \<lparr>w_logger = None, w_served = 0\<rparr> demo_json True)))"
    by (simp add: demo_single_json)
  with logger_does_not_change_results [of demo_rn ?seq demo_evals demo_logger 0 _ demo_json True]
  have "Passed (snd (snd (runSingleEval demo_rn \<lparr>w_logger = Some demo_logger, w_served = 0\<rparr>
      demo_json True)))"
    by blast
  with n s p v show ?thesis by blast
qed

text \<open>C8, as amended, at the example registry in blocking mode.\<close>

theorem result_name_always_mode_qualified_witness:
  "Run_returns demo_rn (demo_cfg [] ModeBlocking) demo_evals
     (demo_run (demo_cfg [] ModeBlocking) demo_evals) \<and>
   map Name (demo_run (demo_cfg [] ModeBlocking) demo_evals) =
     [''json_schema (blocking)'', ''reasoning_present (blocking)'',
      ''agentic_tool_call (blocking)''] \<and>
   Name (snd (snd (runSingleEval demo_rn demo_world demo_json True))) = ''json_schema (streaming)''"
proof -
  from result_name_always_mode_qualified [of demo_rn demo_world demo_json True]
  have "Name (snd (snd (runSingleEval demo_rn demo_world demo_json True))) =
      eval_Name demo_json @ mode_suffix True" by blast
  then have "Name (snd (snd (runSingleEval demo_rn demo_world demo_json True))) =
      ''json_schema (streaming)''"
    by (simp add: demo_json_def demo_eval_def mode_suffix_def)
  with demo_run_returns [of "[]" ModeBlocking demo_evals] demo_names_blocking
  show ?thesis by simp
qed

text \<open>
  C8 as stated fails: with blocking as the only mode, the result of the case
  \<open>json_schema\<close> is named \<open>json_schema (blocking)\<close>, not by the unqualified case name.
\<close>

theorem single_mode_name_is_qualified_counterexample:
  "cfg_Mode (demo_cfg [] ModeBlocking) = ModeBlocking \<and>
   Run_returns demo_rn (demo_cfg [] ModeBlocking) [demo_json]
     (demo_run (demo_cfg [] ModeBlocking) [demo_json]) \<and>
   map Name (demo_run (demo_cfg [] ModeBlocking) [demo_json]) = [''json_schema (blocking)''] \<and>
   eval_Name demo_json = ''json_schema'' \<and>
   ''json_schema (blocking)'' \<noteq> eval_Name demo_json"
  using demo_run_returns [of "[]" ModeBlocking "[demo_json]"] demo_names_json
  by (simp add: demo_cfg_def demo_json_def demo_eval_def)

subsection \<open>The worker pool at the example registry\<close>



















subsection \<open>The setter\<close>




end
